theory Spec2Isabelle
  imports Complex_Main "HOL-Library.Sublist"
begin

chapter \<open>OpenBotX: the embedding\<close>

text \<open>
  The components of OpenBotX that the properties below are about, each translated from
  its Python source: the context store's storage keys and history file, the tool policy,
  the message compactor, the memory index (chunking, indexing, hybrid search), the
  gateway manager and the directive parser. The definitions come first; the theorems
  follow in the second chapter.
\<close>

section \<open>Python strings\<close>

text \<open>
  A Python \<open>str\<close> is a sequence of Unicode code points. The embedding represents the
  code points U+0000 to U+00FF by the 256 values of \<^typ>\<open>char\<close>, so a \<^typ>\<open>string\<close>
  below is a Python string over that range and \<^term>\<open>of_char c\<close> is \<open>ord(c)\<close>.
  The character classes are those of CPython's Unicode database on that range.
\<close>

definition ord :: "char \<Rightarrow> nat" where
  "ord c = of_char c"

definition isalnum :: "char \<Rightarrow> bool" where
  \<comment> \<open>\<open>str.isalnum\<close> for one character\<close>
  "isalnum c = (let n = ord c in
     (48 \<le> n \<and> n \<le> 57) \<or> (65 \<le> n \<and> n \<le> 90) \<or> (97 \<le> n \<and> n \<le> 122) \<or>
     n = 170 \<or> n = 178 \<or> n = 179 \<or> n = 181 \<or> n = 185 \<or> n = 186 \<or>
     (188 \<le> n \<and> n \<le> 190) \<or> (192 \<le> n \<and> n \<le> 214) \<or>
     (216 \<le> n \<and> n \<le> 246) \<or> (248 \<le> n \<and> n \<le> 255))"

definition isspace :: "char \<Rightarrow> bool" where
  \<comment> \<open>\<open>str.isspace\<close> for one character; also the class \<open>\s\<close> of \<open>re\<close>\<close>
  "isspace c = (let n = ord c in
     (9 \<le> n \<and> n \<le> 13) \<or> (28 \<le> n \<and> n \<le> 32) \<or> n = 133 \<or> n = 160)"

section \<open>Context store: storage keys\<close>

text \<open>
  \<^verbatim>\<open>safe_id = "".join(c if c.isalnum() or c in "-_" else "_" for c in channel_id)\<close>
  in \<open>ContextStore._get_channel_path\<close> and \<open>ContextStore._get_summary_path\<close>: the key
  from which both build the file name they join to the memory directory.
\<close>

definition safe_id :: "string \<Rightarrow> string" where
  "safe_id channel_id =
     map (\<lambda>c. if isalnum c \<or> c \<in> set ''-_'' then c else CHR ''_'') channel_id"

text \<open>The class \<open>[A-Za-z0-9_-]\<close> and the sanitiser as the specification words it.\<close>

definition ascii_key_char :: "char \<Rightarrow> bool" where
  "ascii_key_char c = (let n = ord c in
     (65 \<le> n \<and> n \<le> 90) \<or> (97 \<le> n \<and> n \<le> 122) \<or> (48 \<le> n \<and> n \<le> 57) \<or>
     n = 95 \<or> n = 45)"

definition spec_safe_id :: "string \<Rightarrow> string" where
  "spec_safe_id channel_id = map (\<lambda>c. if ascii_key_char c then c else CHR ''_'') channel_id"

section \<open>Tool policy\<close>

datatype ToolProfile = MINIMAL | CODING | MESSAGING | FULL

datatype ToolGroup =
  FS | WEB | MEMORY | SESSIONS | UI | AUTOMATION | G_MESSAGING | DATABASE | STORAGE
  | SCHEDULER | SYSTEM

fun profile_value :: "ToolProfile \<Rightarrow> string" where
  "profile_value MINIMAL = ''minimal''"
| "profile_value CODING = ''coding''"
| "profile_value MESSAGING = ''messaging''"
| "profile_value FULL = ''full''"

fun group_value :: "ToolGroup \<Rightarrow> string" where
  "group_value FS = ''fs''"
| "group_value WEB = ''web''"
| "group_value MEMORY = ''memory''"
| "group_value SESSIONS = ''sessions''"
| "group_value UI = ''ui''"
| "group_value AUTOMATION = ''automation''"
| "group_value G_MESSAGING = ''messaging''"
| "group_value DATABASE = ''database''"
| "group_value STORAGE = ''storage''"
| "group_value SCHEDULER = ''scheduler''"
| "group_value SYSTEM = ''system''"

fun PROFILE_GROUPS :: "ToolProfile \<Rightarrow> ToolGroup set" where
  "PROFILE_GROUPS MINIMAL = {SYSTEM}"
| "PROFILE_GROUPS CODING = {SYSTEM, FS, DATABASE}"
| "PROFILE_GROUPS MESSAGING = {SYSTEM, G_MESSAGING, WEB}"
| "PROFILE_GROUPS FULL =
     {SYSTEM, FS, WEB, MEMORY, SESSIONS, UI, AUTOMATION, G_MESSAGING, DATABASE, STORAGE,
      SCHEDULER}"

record ToolPolicyConfig =
  default_profile :: ToolProfile
  allowlist :: "string list"
  denylist :: "string list"
  group_overrides :: "(ToolGroup \<times> bool) list"
  approval_required_tools :: "string list"
  dangerous_tools :: "string list"

record ToolInfo =
  tool_name :: string
  group :: "ToolGroup option"
  groups :: "ToolGroup list"
  approval_required :: bool
  dangerous :: bool
  admin_only :: bool

record ToolPolicyResult =
  allowed :: bool
  reason :: string
  requires_approval :: bool
  requires_elevation :: bool

text \<open>
  \<open>ToolPolicy.get_allowed_groups\<close>: the profile's groups, then every override in the
  order of the dictionary's items: an enabling one adds its group, a disabling one removes it.
\<close>

fun apply_overrides :: "(ToolGroup \<times> bool) list \<Rightarrow> ToolGroup set \<Rightarrow> ToolGroup set" where
  "apply_overrides [] gs = gs"
| "apply_overrides ((g, enable) # rest) gs =
     apply_overrides rest (if enable then insert g gs else if g \<in> gs then gs - {g} else gs)"

definition get_allowed_groups :: "ToolPolicyConfig \<Rightarrow> ToolProfile \<Rightarrow> ToolGroup set" where
  "get_allowed_groups cfg profile = apply_overrides (group_overrides cfg) (PROFILE_GROUPS profile)"

text \<open>
  \<open>ToolPolicy.evaluate\<close>, branch by branch. The loop over \<open>tool.groups\<close> returns at the
  first group that is allowed, which \<^const>\<open>find\<close> yields.
\<close>

definition evaluate :: "ToolPolicyConfig \<Rightarrow> ToolInfo \<Rightarrow> ToolProfile \<Rightarrow> bool \<Rightarrow> ToolPolicyResult" where
  "evaluate cfg tool profile elevated =
    (if tool_name tool \<in> set (denylist cfg) then
       \<lparr>allowed = False, reason = ''Tool '' @ [CHR 0x27] @ tool_name tool @ [CHR 0x27] @ '' is in denylist'',
        requires_approval = False, requires_elevation = False\<rparr>
     else if tool_name tool \<in> set (allowlist cfg) then
       \<lparr>allowed = True, reason = ''Tool '' @ [CHR 0x27] @ tool_name tool @ [CHR 0x27] @ '' is in allowlist'',
        requires_approval = approval_required tool, requires_elevation = False\<rparr>
     else if admin_only tool \<and> \<not> elevated then
       \<lparr>allowed = False,
        reason = ''Tool '' @ [CHR 0x27] @ tool_name tool @ [CHR 0x27] @ '' requires admin privileges'',
        requires_approval = False, requires_elevation = True\<rparr>
     else if (dangerous tool \<or> tool_name tool \<in> set (dangerous_tools cfg)) \<and> \<not> elevated then
       \<lparr>allowed = False,
        reason = ''Tool '' @ [CHR 0x27] @ tool_name tool @ [CHR 0x27] @ '' is marked as dangerous'',
        requires_approval = False, requires_elevation = True\<rparr>
     else
       let allowed_groups = get_allowed_groups cfg profile in
       if group tool = None \<and> groups tool = [] then
         (if profile = FULL then
            \<lparr>allowed = True, reason = ''Tool has no group, allowed in FULL profile'',
             requires_approval = approval_required tool, requires_elevation = False\<rparr>
          else
            \<lparr>allowed = False,
             reason = ''Tool '' @ [CHR 0x27] @ tool_name tool @ [CHR 0x27]
                      @ '' has no group and profile is not FULL'',
             requires_approval = False, requires_elevation = False\<rparr>)
       else
         case (case group tool of None \<Rightarrow> None
               | Some g \<Rightarrow> if g \<in> allowed_groups then Some g else None) of
           Some g \<Rightarrow>
             \<lparr>allowed = True,
              reason = ''Tool group '' @ [CHR 0x27] @ group_value g @ [CHR 0x27]
                       @ '' is allowed in profile '' @ [CHR 0x27] @ profile_value profile @ [CHR 0x27],
              requires_approval = approval_required tool, requires_elevation = False\<rparr>
         | None \<Rightarrow>
             (case find (\<lambda>g. g \<in> allowed_groups) (groups tool) of
                Some g \<Rightarrow>
                  \<lparr>allowed = True,
                   reason = ''Tool group '' @ [CHR 0x27] @ group_value g @ [CHR 0x27]
                            @ '' is allowed in profile '' @ [CHR 0x27] @ profile_value profile
                            @ [CHR 0x27],
                   requires_approval = approval_required tool, requires_elevation = False\<rparr>
              | None \<Rightarrow>
                  \<lparr>allowed = False,
                   reason = ''Tool '' @ [CHR 0x27] @ tool_name tool @ [CHR 0x27]
                            @ '' is not allowed in profile '' @ [CHR 0x27] @ profile_value profile
                            @ [CHR 0x27],
                   requires_approval = False, requires_elevation = False\<rparr>))"

text \<open>The two conditions the rule list of the specification names.\<close>

definition in_allowed_group :: "ToolPolicyConfig \<Rightarrow> ToolInfo \<Rightarrow> ToolProfile \<Rightarrow> bool" where
  "in_allowed_group cfg tool profile =
     ((case group tool of None \<Rightarrow> False | Some g \<Rightarrow> g \<in> get_allowed_groups cfg profile)
      \<or> list_ex (\<lambda>g. g \<in> get_allowed_groups cfg profile) (groups tool))"

definition has_no_group :: "ToolInfo \<Rightarrow> bool" where
  "has_no_group tool = (group tool = None \<and> groups tool = [])"

text \<open>A policy and some tools to run the rules on.\<close>

definition sample_policy :: ToolPolicyConfig where
  "sample_policy = \<lparr>default_profile = FULL, allowlist = [''rm'', ''deploy''], denylist = [''rm''],
     group_overrides = [(WEB, True), (DATABASE, False)], approval_required_tools = [],
     dangerous_tools = [''shell'']\<rparr>"

definition sample_tool :: "string \<Rightarrow> ToolGroup option \<Rightarrow> ToolGroup list \<Rightarrow> bool \<Rightarrow> bool \<Rightarrow> ToolInfo" where
  "sample_tool n g gs d a =
     \<lparr>tool_name = n, group = g, groups = gs, approval_required = True, dangerous = d,
      admin_only = a\<rparr>"

section \<open>Python lists and dictionaries\<close>

text \<open>
  \<open>sep.join(parts)\<close>, and the slice \<open>xs[i:]\<close> with Python's reading of a negative start.
\<close>

fun py_join :: "string \<Rightarrow> string list \<Rightarrow> string" where
  "py_join sep [] = []"
| "py_join sep [x] = x"
| "py_join sep (x # y # ys) = x @ sep @ py_join sep (y # ys)"

definition py_slice_from :: "'a list \<Rightarrow> int \<Rightarrow> 'a list" where
  "py_slice_from xs i =
     (if i < 0 then drop (nat (max 0 (int (length xs) + i))) xs else drop (nat i) xs)"

text \<open>
  A message is a dictionary with string keys; \<open>msg.get(key, default)\<close> reads it.
\<close>

type_synonym message = "string \<rightharpoonup> string"

definition msg_get :: "message \<Rightarrow> string \<Rightarrow> string \<Rightarrow> string" where
  "msg_get msg key dflt = (case msg key of None \<Rightarrow> dflt | Some v \<Rightarrow> v)"

section \<open>Message compaction\<close>

text \<open>
  \<open>count_tokens\<close> of \<open>openbotx.helpers.tokens\<close> is a parameter of the model: a function
  from strings to natural numbers, written \<open>ct\<close>. The product \<open>int(token_budget * 0.7)\<close> of
  \<open>_compact_progressive\<close> is computed in floating point; the model takes the function
  from the budget to that integer as the parameter \<open>scale\<close>.
\<close>

datatype CompactionStrategy = ADAPTIVE | PROGRESSIVE | TRUNCATE

record CompactionConfig =
  strategy :: CompactionStrategy
  max_context_tokens :: int
  reserve_for_response :: int
  summary_target_tokens :: int
  min_messages_to_keep :: int
  chunk_overlap_tokens :: int

record CompactionResult =
  messages :: "message list"
  summary :: "string option"
  tokens_before :: int
  tokens_after :: int
  messages_removed :: int
  summary_updated :: bool

definition sum_tokens :: "(string \<Rightarrow> nat) \<Rightarrow> message list \<Rightarrow> int" where
  \<comment> \<open>\<open>sum(count_tokens(m.get("content", "")) for m in messages)\<close>\<close>
  "sum_tokens ct msgs = (\<Sum>m\<leftarrow>msgs. int (ct (msg_get m ''content'' '''')))"

definition summary_tokens :: "(string \<Rightarrow> nat) \<Rightarrow> string option \<Rightarrow> int" where
  \<comment> \<open>\<open>count_tokens(s) if s else 0\<close>: \<open>None\<close> and the empty string count 0\<close>
  "summary_tokens ct s = (case s of None \<Rightarrow> 0 | Some t \<Rightarrow> if t = [] then 0 else int (ct t))"

text \<open>
  The loop \<open>for msg in reversed(messages)\<close> of \<open>_compact_adaptive\<close> and
  \<open>_compact_truncate\<close>, run on the reversed list: the state is
  \<open>(kept_messages, current_tokens, removed_count)\<close>.
\<close>

fun keep_fitting ::
  "(string \<Rightarrow> nat) \<Rightarrow> int \<Rightarrow> message list \<Rightarrow> message list \<times> int \<times> int \<Rightarrow> message list \<times> int \<times> int" where
  "keep_fitting ct available_budget [] st = st"
| "keep_fitting ct available_budget (msg # rest) (kept_messages, current_tokens, removed_count) =
     (let msg_tokens = int (ct (msg_get msg ''content'' '''')) in
      if current_tokens + msg_tokens \<le> available_budget
      then keep_fitting ct available_budget rest
             (msg # kept_messages, current_tokens + msg_tokens, removed_count)
      else keep_fitting ct available_budget rest
             (kept_messages, current_tokens, removed_count + 1))"

definition compact_adaptive ::
  "(string \<Rightarrow> nat) \<Rightarrow> CompactionConfig \<Rightarrow> message list \<Rightarrow> int \<Rightarrow> string option \<Rightarrow> CompactionResult" where
  "compact_adaptive ct cfg msgs token_budget existing_summary =
    (let before = sum_tokens ct msgs;
         summary_toks = summary_tokens ct existing_summary;
         available_budget = token_budget - summary_toks;
         (kept0, current0, removed0) = keep_fitting ct available_budget (rev msgs) ([], 0, 0);
         (kept_messages, current_tokens, removed_count) =
           (if int (length kept0) < min_messages_to_keep cfg
            then (let kept1 = py_slice_from msgs (- min_messages_to_keep cfg)
                  in (kept1, sum_tokens ct kept1, int (length msgs) - int (length kept1)))
            else (kept0, current0, removed0))
     in \<lparr>messages = kept_messages, summary = existing_summary, tokens_before = before,
         tokens_after = current_tokens + summary_toks, messages_removed = removed_count,
         summary_updated = False\<rparr>)"

definition compact_truncate ::
  "(string \<Rightarrow> nat) \<Rightarrow> message list \<Rightarrow> int \<Rightarrow> string option \<Rightarrow> CompactionResult" where
  "compact_truncate ct msgs token_budget existing_summary =
    (let before = sum_tokens ct msgs;
         summary_toks = summary_tokens ct existing_summary;
         available_budget = token_budget - summary_toks;
         (kept_messages, current_tokens, _) =
           keep_fitting ct available_budget (rev msgs) ([], 0, 0)
     in \<lparr>messages = kept_messages, summary = existing_summary, tokens_before = before,
         tokens_after = current_tokens + summary_toks,
         messages_removed = int (length msgs) - int (length kept_messages),
         summary_updated = False\<rparr>)"

text \<open>
  The loop of \<open>_compact_progressive\<close> stops at the first message that does not fit
  (\<open>break\<close>); \<open>i\<close> is the index \<open>enumerate\<close> gives, \<open>n\<close> is \<open>len(messages)\<close>, and the state is
  \<open>(kept_messages, current_tokens, cutoff_index)\<close>.
\<close>

fun keep_recent ::
  "(string \<Rightarrow> nat) \<Rightarrow> int \<Rightarrow> int \<Rightarrow> int \<Rightarrow> message list \<Rightarrow> message list \<times> int \<times> int
     \<Rightarrow> message list \<times> int \<times> int" where
  "keep_recent ct recent_budget n i [] st = st"
| "keep_recent ct recent_budget n i (msg # rest) (kept_messages, current_tokens, cutoff_index) =
     (let msg_tokens = int (ct (msg_get msg ''content'' '''')) in
      if current_tokens + msg_tokens \<le> recent_budget
      then keep_recent ct recent_budget n (i + 1) rest
             (msg # kept_messages, current_tokens + msg_tokens, n - i - 1)
      else (kept_messages, current_tokens, cutoff_index))"

definition prepare_for_summarization :: "message list \<Rightarrow> string option \<Rightarrow> string" where
  "prepare_for_summarization msgs existing_summary =
     py_join [CHR 0x0A]
       ((case existing_summary of
           None \<Rightarrow> []
         | Some s \<Rightarrow> if s = [] then [] else [''Previous summary:'' @ [CHR 0x0A] @ s @ [CHR 0x0A]])
        @ [''Messages to incorporate:'' @ [CHR 0x0A]]
        @ map (\<lambda>msg. ''['' @ msg_get msg ''role'' ''unknown'' @ '']: '' @ msg_get msg ''content'' '''')
            msgs)"

definition compact_progressive ::
  "(string \<Rightarrow> nat) \<Rightarrow> (int \<Rightarrow> int) \<Rightarrow> message list \<Rightarrow> int \<Rightarrow> string option \<Rightarrow> CompactionResult" where
  "compact_progressive ct scale msgs token_budget existing_summary =
    (let before = sum_tokens ct msgs;
         recent_budget = scale token_budget;
         (kept_messages, current_tokens, cutoff_index) =
           keep_recent ct recent_budget (int (length msgs)) 0 (rev msgs)
             ([], 0, int (length msgs));
         messages_to_summarize = take (nat cutoff_index) msgs;
         removed_count = int (length messages_to_summarize);
         new_summary =
           (if messages_to_summarize \<noteq> []
            then Some (prepare_for_summarization messages_to_summarize existing_summary)
            else None)
     in \<lparr>messages = kept_messages, summary = new_summary, tokens_before = before,
         tokens_after = current_tokens + summary_tokens ct new_summary,
         messages_removed = removed_count, summary_updated = (new_summary \<noteq> None)\<rparr>)"

definition compact ::
  "(string \<Rightarrow> nat) \<Rightarrow> (int \<Rightarrow> int) \<Rightarrow> CompactionConfig \<Rightarrow> message list \<Rightarrow> int \<Rightarrow> string option
     \<Rightarrow> CompactionResult" where
  "compact ct scale cfg msgs token_budget existing_summary =
    (if strategy cfg = ADAPTIVE then compact_adaptive ct cfg msgs token_budget existing_summary
     else if strategy cfg = PROGRESSIVE
       then compact_progressive ct scale msgs token_budget existing_summary
     else compact_truncate ct msgs token_budget existing_summary)"

text \<open>
  Whether \<open>_compact_adaptive\<close> takes its branch \<open>len(kept_messages) < min_messages_to_keep\<close>.
\<close>

definition floor_triggered ::
  "(string \<Rightarrow> nat) \<Rightarrow> CompactionConfig \<Rightarrow> message list \<Rightarrow> int \<Rightarrow> string option \<Rightarrow> bool" where
  "floor_triggered ct cfg msgs token_budget existing_summary =
     (int (length (fst (keep_fitting ct (token_budget - summary_tokens ct existing_summary)
                          (rev msgs) ([], 0, 0))))
      < min_messages_to_keep cfg)"

text \<open>
  The budget property as the specification states it: the kept turns and the summary
  fit the budget, or the strategy is adaptive, the floor is triggered and exactly
  \<open>min_messages_to_keep\<close> turns are kept.
\<close>

definition spec_budget_property ::
  "(string \<Rightarrow> nat) \<Rightarrow> (int \<Rightarrow> int) \<Rightarrow> CompactionConfig \<Rightarrow> message list \<Rightarrow> int \<Rightarrow> string option \<Rightarrow> bool" where
  "spec_budget_property ct scale cfg msgs token_budget existing_summary =
    (let r = compact ct scale cfg msgs token_budget existing_summary in
     sum_tokens ct (messages r) + summary_tokens ct (summary r) \<le> token_budget
     \<or> (strategy cfg = ADAPTIVE \<and> floor_triggered ct cfg msgs token_budget existing_summary
        \<and> int (length (messages r)) = min_messages_to_keep cfg))"

text \<open>
  A token counter and inputs to run the compactor on: one token per character, the
  default configuration, and \<open>int(B * 0.7)\<close> for the budgets used below
  (\<open>int(10 * 0.7) = 7\<close>).
\<close>

definition chars_as_tokens :: "string \<Rightarrow> nat" where
  "chars_as_tokens s = length s"

definition default_config :: "CompactionStrategy \<Rightarrow> CompactionConfig" where
  "default_config s = \<lparr>strategy = s, max_context_tokens = 100000, reserve_for_response = 4096,
     summary_target_tokens = 1000, min_messages_to_keep = 4, chunk_overlap_tokens = 200\<rparr>"

definition scale_small :: "int \<Rightarrow> int" where
  "scale_small b = (7 * b) div 10"

definition turn_msg :: "string \<Rightarrow> string \<Rightarrow> message" where
  "turn_msg r c = [''role'' \<mapsto> r, ''content'' \<mapsto> c]"

section \<open>Splitting and stripping strings\<close>

text \<open>
  \<open>s.split(sep)\<close> for a non-empty separator: the pieces between the occurrences of
  \<open>sep\<close>, found from the left and not overlapping. \<open>acc\<close> holds the characters of the
  current piece, last first. (Python raises \<open>ValueError\<close> on an empty separator; the
  sources split on \<open>"\n"\<close> and \<open>" - "\<close> only.)
\<close>

fun split_from :: "string \<Rightarrow> string \<Rightarrow> string \<Rightarrow> string list" where
  "split_from sep acc [] = [rev acc]"
| "split_from sep acc (c # cs) =
     (if sep \<noteq> [] \<and> prefix sep (c # cs)
      then rev acc # split_from sep [] (drop (length sep - 1) cs)
      else split_from sep (c # acc) cs)"

definition py_split :: "string \<Rightarrow> string \<Rightarrow> string list" where
  "py_split sep s = split_from sep [] s"

definition newline :: string where
  "newline = [CHR 0x0A]"

definition splitlines_nl :: "string \<Rightarrow> string list" where
  \<comment> \<open>\<open>s.split("\n")\<close>\<close>
  "splitlines_nl s = py_split newline s"

definition py_strip :: "string \<Rightarrow> string" where
  \<comment> \<open>\<open>s.strip()\<close>: leading and trailing whitespace removed\<close>
  "py_strip s = rev (dropWhile isspace (rev (dropWhile isspace s)))"

fun contains :: "string \<Rightarrow> string \<Rightarrow> bool" where
  \<comment> \<open>\<open>sub in s\<close>\<close>
  "contains sub [] = (sub = [])"
| "contains sub (c # cs) = (prefix sub (c # cs) \<or> contains sub cs)"

section \<open>Memory index: hybrid search\<close>




text \<open>
  The slice \<open>xs[:i]\<close> of a list: the first \<open>i\<close> elements, and for a negative \<open>i\<close> all but
  the last \<open>-i\<close>.
\<close>

definition py_slice_to :: "'a list \<Rightarrow> int \<Rightarrow> 'a list" where
  "py_slice_to xs i =
     (if i < 0 then take (nat (max 0 (int (length xs) + i))) xs else take (nat i) xs)"

text \<open>
  The embedding of the query, the two searches of the database and \<open>_generate_snippet\<close>
  are inputs of the model: \<open>vec_results\<close> is the list the vector search returned, or
  \<open>None\<close> when it raised and \<open>search\<close> logged a warning; \<open>text_results\<close> is what
  \<open>_text_search\<close> returned.
\<close>

datatype MemorySource = SRC_MEMORY | SRC_SESSIONS | SRC_EXTRA























section \<open>Gateway manager\<close>

text \<open>
  The embedding follows one call of the manager from its first statement to its return.
  The gateway's own methods are the operations \<open>g_initialize\<close>, \<open>g_start\<close> and \<open>g_stop\<close> on a
  gateway state \<open>'g\<close>: each returns the new state, or the message of the exception it
  raised. \<open>now\<close> is the value of \<open>datetime.now(UTC)\<close>. A task is the handle
  \<open>asyncio.create_task\<close> returned; what the event loop runs between two \<open>await\<close>s of the
  call is outside the model.
\<close>

datatype GatewayStatus =
  REGISTERED | STARTING | RUNNING | STOPPING | STOPPED | ERROR | RESTARTING

datatype ProviderStatus =
  P_INITIALIZED | P_STARTING | P_RUNNING | P_STOPPING | P_STOPPED | P_ERROR

record 'g gateway_ops =
  g_status :: "'g \<Rightarrow> ProviderStatus"
  g_initialize :: "'g \<Rightarrow> string + 'g"
  g_start :: "'g \<Rightarrow> string + 'g"
  g_stop :: "'g \<Rightarrow> string + 'g"
  g_has_run :: "'g \<Rightarrow> bool"

record task =
  task_name :: string
  task_done :: bool

record 'g GatewayInfo =
  info_name :: string
  gateway :: 'g
  status :: GatewayStatus
  task :: "task option"
  started_at :: "string option"
  stopped_at :: "string option"
  error :: "string option"
  restart_count :: int

record 'g GatewayManager =
  gateways :: "string \<rightharpoonup> 'g GatewayInfo"
  auto_restart :: bool
  max_restarts :: int

definition set_info :: "'g GatewayManager \<Rightarrow> string \<Rightarrow> 'g GatewayInfo \<Rightarrow> 'g GatewayManager" where
  "set_info m n info = m\<lparr>gateways := (gateways m)(n \<mapsto> info)\<rparr>"

text \<open>
  \<open>start_gateway\<close>. The \<open>try\<close> block runs \<open>initialize()\<close> when the provider is in the
  status \<open>initialized\<close>, then \<open>start()\<close>; an exception of either leaves the gateway as the
  failing method found it and takes the \<open>except\<close> branch.
\<close>

definition start_gateway ::
  "'g gateway_ops \<Rightarrow> string \<Rightarrow> 'g GatewayManager \<Rightarrow> string \<Rightarrow> bool \<times> 'g GatewayManager" where
  "start_gateway ops now m n =
    (case gateways m n of
       None \<Rightarrow> (False, m)
     | Some info \<Rightarrow>
         if status info = RUNNING then (True, m)
         else
           let info1 = info\<lparr>status := STARTING\<rparr>;
               initialized =
                 (if g_status ops (gateway info1) = P_INITIALIZED
                  then g_initialize ops (gateway info1) else Inr (gateway info1))
           in case initialized of
                Inl e \<Rightarrow> (False, set_info m n (info1\<lparr>status := ERROR, error := Some e\<rparr>))
              | Inr g1 \<Rightarrow>
                  (case g_start ops g1 of
                     Inl e \<Rightarrow>
                       (False, set_info m n (info1\<lparr>gateway := g1, status := ERROR, error := Some e\<rparr>))
                   | Inr g2 \<Rightarrow>
                       let info2 = info1\<lparr>gateway := g2\<rparr>;
                           info3 =
                             (if g_has_run ops g2
                              then info2\<lparr>task := Some \<lparr>task_name = ''gateway-'' @ n, task_done = False\<rparr>\<rparr>
                              else info2)
                       in (True, set_info m n
                                   (info3\<lparr>status := RUNNING, started_at := Some now, error := None\<rparr>))))"

text \<open>
  \<open>stop_gateway\<close>. Cancelling the task and waiting for it changes nothing the manager
  records; a timeout and the cancellation are caught and logged.
\<close>

definition stop_gateway ::
  "'g gateway_ops \<Rightarrow> string \<Rightarrow> 'g GatewayManager \<Rightarrow> string \<Rightarrow> bool \<times> 'g GatewayManager" where
  "stop_gateway ops now m n =
    (case gateways m n of
       None \<Rightarrow> (False, m)
     | Some info \<Rightarrow>
         if status info \<notin> {RUNNING, ERROR} then (True, m)
         else
           let info1 = info\<lparr>status := STOPPING\<rparr>
           in case g_stop ops (gateway info1) of
                Inl e \<Rightarrow> (False, set_info m n (info1\<lparr>status := ERROR, error := Some e\<rparr>))
              | Inr g1 \<Rightarrow>
                  (True, set_info m n
                     (info1\<lparr>gateway := g1, status := STOPPED, stopped_at := Some now,
                            task := None\<rparr>)))"

definition restart_gateway ::
  "'g gateway_ops \<Rightarrow> string \<Rightarrow> 'g GatewayManager \<Rightarrow> string \<Rightarrow> bool \<times> 'g GatewayManager" where
  "restart_gateway ops now m n =
    (case gateways m n of
       None \<Rightarrow> (False, m)
     | Some info \<Rightarrow>
         let m1 = set_info m n (info\<lparr>status := RESTARTING\<rparr>);
             (_, m2) = stop_gateway ops now m1 n
         in start_gateway ops now m2 n)"

text \<open>
  The \<open>except Exception\<close> branch of \<open>_run_gateway_wrapper\<close>, taken when the gateway's
  \<open>_run\<close> raised \<open>e\<close>: the one place that increments \<open>restart_count\<close>.
\<close>

definition run_gateway_failed ::
  "'g gateway_ops \<Rightarrow> string \<Rightarrow> 'g GatewayManager \<Rightarrow> string \<Rightarrow> string \<Rightarrow> 'g GatewayManager" where
  "run_gateway_failed ops now m n e =
    (case gateways m n of
       None \<Rightarrow> m
     | Some info \<Rightarrow>
         let info1 = info\<lparr>status := ERROR, error := Some e\<rparr>
         in if auto_restart m \<and> restart_count info1 < max_restarts m
            then snd (start_gateway ops now
                        (set_info m n (info1\<lparr>restart_count := restart_count info1 + 1\<rparr>)) n)
            else set_info m n info1)"

text \<open>The CLI gateway of \<open>providers/gateway/cli.py\<close>, and a manager that runs one.\<close>

record cli_gateway =
  cli_status :: ProviderStatus
  cli_running :: bool
  cli_stop_event :: bool

definition cli_ops :: "cli_gateway gateway_ops" where
  "cli_ops = \<lparr>g_status = cli_status,
     g_initialize = (\<lambda>g. Inr (g\<lparr>cli_status := P_INITIALIZED\<rparr>)),
     g_start = (\<lambda>g. Inr (g\<lparr>cli_status := P_RUNNING, cli_running := True, cli_stop_event := False\<rparr>)),
     g_stop = (\<lambda>g. Inr (g\<lparr>cli_status := P_STOPPED, cli_running := False, cli_stop_event := True\<rparr>)),
     g_has_run = (\<lambda>g. True)\<rparr>"

definition running_cli :: "cli_gateway GatewayInfo" where
  "running_cli = \<lparr>info_name = ''cli'',
     gateway = \<lparr>cli_status = P_RUNNING, cli_running = True, cli_stop_event = False\<rparr>,
     status = RUNNING, task = Some \<lparr>task_name = ''gateway-cli'', task_done = False\<rparr>,
     started_at = Some ''2024-01-01T00:00:00+00:00'', stopped_at = None, error = None,
     restart_count = 0\<rparr>"

definition cli_manager :: "cli_gateway GatewayManager" where
  "cli_manager = \<lparr>gateways = [''cli'' \<mapsto> running_cli], auto_restart = False, max_restarts = 3\<rparr>"

section \<open>Memory index: chunking and indexing\<close>

text \<open>
  What the index takes from outside is gathered in \<open>index_env\<close>: \<open>count_tokens\<close>, the first
  16 hexadecimal digits of SHA-256 (\<open>sha16\<close>), the embedding provider's \<open>embed_batch\<close>
  (\<open>None\<close> when it raises) and \<open>dimensions\<close>, and the clock. The file system is a map
  from a path to the content, modification time and size of the file at that path.
\<close>

record index_env =
  count_tokens :: "string \<Rightarrow> nat"
  sha16 :: "string \<Rightarrow> string"
  embed_batch :: "string list \<Rightarrow> real list list option"
  dimensions :: nat
  now_iso :: string

record MemoryIndex =
  chunk_size :: int
  chunk_overlap :: int
  use_vec :: bool

record Chunk =
  chunk_path :: string
  chunk_source :: MemorySource
  chunk_start_line :: int
  chunk_end_line :: int
  chunk_text :: string
  chunk_hash :: string

definition make_chunk :: "index_env \<Rightarrow> string \<Rightarrow> MemorySource \<Rightarrow> int \<Rightarrow> int \<Rightarrow> string list \<Rightarrow> Chunk" where
  "make_chunk env path source start_line end_line current_chunk_lines =
     (let text = py_join newline current_chunk_lines in
      \<lparr>chunk_path = path, chunk_source = source, chunk_start_line = start_line,
       chunk_end_line = end_line, chunk_text = text, chunk_hash = sha16 env text\<rparr>)"

text \<open>
  The inner loop \<open>for line in reversed(current_chunk_lines)\<close> of \<open>_chunk_text\<close>. It binds
  the name \<open>line\<close> of the outer loop anew, so the state carries, besides
  \<open>overlap_lines\<close> and \<open>overlap_tokens\<close>, the value \<open>line\<close> has when the loop is left.
\<close>

fun overlap_walk ::
  "(string \<Rightarrow> nat) \<Rightarrow> int \<Rightarrow> string list \<Rightarrow> string list \<times> int \<times> string \<Rightarrow> string list \<times> int \<times> string" where
  "overlap_walk ct overlap [] st = st"
| "overlap_walk ct overlap (l # rest) (overlap_lines, overlap_tokens, line) =
     (let lt = int (ct l) in
      if overlap_tokens + lt > overlap then (overlap_lines, overlap_tokens, l)
      else overlap_walk ct overlap rest (l # overlap_lines, overlap_tokens + lt, l))"

text \<open>
  The loop \<open>for i, line in enumerate(lines, 1)\<close>; the state is
  \<open>(chunks, current_chunk_lines, current_chunk_tokens, start_line)\<close>. After a chunk is
  closed, \<open>current_chunk_lines.append(line)\<close> appends the \<open>line\<close> the inner loop left.
\<close>

fun chunk_loop ::
  "index_env \<Rightarrow> MemoryIndex \<Rightarrow> string \<Rightarrow> MemorySource \<Rightarrow> int \<Rightarrow> string list
     \<Rightarrow> Chunk list \<times> string list \<times> int \<times> int \<Rightarrow> Chunk list \<times> string list \<times> int \<times> int" where
  "chunk_loop env idx path source i [] st = st"
| "chunk_loop env idx path source i (line # rest)
     (chunks, current_chunk_lines, current_chunk_tokens, start_line) =
     (let line_tokens = int (count_tokens env line) in
      if current_chunk_tokens + line_tokens > chunk_size idx \<and> current_chunk_lines \<noteq> [] then
        (case overlap_walk (count_tokens env) (chunk_overlap idx) (rev current_chunk_lines)
                ([], 0, line) of
           (overlap_lines, overlap_tokens, line') \<Rightarrow>
             chunk_loop env idx path source (i + 1) rest
               (chunks @ [make_chunk env path source start_line (i - 1) current_chunk_lines],
                overlap_lines @ [line'], overlap_tokens + line_tokens,
                i - int (length overlap_lines)))
      else chunk_loop env idx path source (i + 1) rest
             (chunks, current_chunk_lines @ [line], current_chunk_tokens + line_tokens,
              start_line))"

definition chunk_text_fn :: "index_env \<Rightarrow> MemoryIndex \<Rightarrow> string \<Rightarrow> string \<Rightarrow> MemorySource \<Rightarrow> Chunk list" where
  \<comment> \<open>\<open>MemoryIndex._chunk_text\<close>\<close>
  "chunk_text_fn env idx text path source =
     (let lines = splitlines_nl text in
      case chunk_loop env idx path source 1 lines ([], [], 0, 1) of
        (chunks, current_chunk_lines, current_chunk_tokens, start_line) \<Rightarrow>
          if current_chunk_lines \<noteq> []
          then chunks @ [make_chunk env path source start_line (int (length lines))
                           current_chunk_lines]
          else chunks)"

subsection \<open>The tables\<close>

text \<open>
  \<open>chunks\<close> has an \<open>AUTOINCREMENT\<close> key, so a new row takes the number after the largest
  ever given (\<open>chunk_seq\<close>). The triggers \<open>chunks_ai\<close> and \<open>chunks_ad\<close> are part of the insert
  and the delete on \<open>chunks\<close>: the first adds the row's text to \<open>chunks_fts\<close> under its id,
  the second removes the entry of that id. SQLite enforces foreign keys only when asked
  to, and the index does not ask, so nothing cascades from \<open>files\<close>. An insert into
  \<open>chunks_vec\<close> that raises (a key already there, a vector of another length than the
  table's) is caught by \<open>index_file\<close> and logged.
\<close>

record chunk_row =
  row_id :: int
  row_path :: string
  row_source :: MemorySource
  row_start_line :: int
  row_end_line :: int
  row_hash :: string
  row_text :: string
  row_embedding :: "real list option"
  row_updated_at :: string

record file_row =
  file_hash :: string
  file_mtime :: real
  file_size :: int
  file_source :: MemorySource
  file_indexed_at :: string

record memory_db =
  files :: "string \<rightharpoonup> file_row"
  chunks :: "chunk_row list"
  chunks_fts :: "(int \<times> string) list"
  chunks_vec :: "(int \<times> real list) list"
  chunk_seq :: int

definition insert_chunk :: "memory_db \<Rightarrow> string \<Rightarrow> Chunk \<Rightarrow> real list \<Rightarrow> int \<times> memory_db" where
  "insert_chunk db now chunk embedding =
     (let i = chunk_seq db + 1;
          row = \<lparr>row_id = i, row_path = chunk_path chunk, row_source = chunk_source chunk,
                 row_start_line = chunk_start_line chunk, row_end_line = chunk_end_line chunk,
                 row_hash = chunk_hash chunk, row_text = chunk_text chunk,
                 row_embedding = Some embedding, row_updated_at = now\<rparr>
      in (i, db\<lparr>chunks := chunks db @ [row], chunks_fts := chunks_fts db @ [(i, row_text row)],
                chunk_seq := i\<rparr>))"

definition fts_delete :: "chunk_row \<Rightarrow> (int \<times> string) list \<Rightarrow> (int \<times> string) list" where
  "fts_delete old fts = filter (\<lambda>(rowid, t). rowid \<noteq> row_id old) fts"

definition delete_chunks_where_path :: "memory_db \<Rightarrow> string \<Rightarrow> memory_db" where
  \<comment> \<open>\<open>DELETE FROM chunks WHERE path = ?\<close>\<close>
  "delete_chunks_where_path db path =
     db\<lparr>chunks := filter (\<lambda>r. row_path r \<noteq> path) (chunks db),
        chunks_fts := fold fts_delete (filter (\<lambda>r. row_path r = path) (chunks db)) (chunks_fts db)\<rparr>"

definition delete_vec_where_path :: "memory_db \<Rightarrow> string \<Rightarrow> memory_db" where
  \<comment> \<open>\<open>DELETE FROM chunks_vec WHERE chunk_id IN (SELECT id FROM chunks WHERE path = ?)\<close>\<close>
  "delete_vec_where_path db path =
     db\<lparr>chunks_vec :=
          filter (\<lambda>(chunk_id, e). chunk_id \<notin> row_id ` set (filter (\<lambda>r. row_path r = path) (chunks db)))
            (chunks_vec db)\<rparr>"

definition insert_vec :: "index_env \<Rightarrow> memory_db \<Rightarrow> int \<Rightarrow> real list \<Rightarrow> memory_db" where
  "insert_vec env db chunk_id embedding =
     (if chunk_id \<in> fst ` set (chunks_vec db) \<or> length embedding \<noteq> dimensions env then db
      else db\<lparr>chunks_vec := chunks_vec db @ [(chunk_id, embedding)]\<rparr>)"

definition upsert_file :: "memory_db \<Rightarrow> string \<Rightarrow> file_row \<Rightarrow> memory_db" where
  \<comment> \<open>\<open>INSERT OR REPLACE INTO files\<close>\<close>
  "upsert_file db path row = db\<lparr>files := (files db)(path \<mapsto> row)\<rparr>"

subsection \<open>\<open>index_file\<close>, \<open>index_text\<close> and \<open>get\<close>\<close>

fun insert_chunks_text :: "memory_db \<Rightarrow> string \<Rightarrow> (Chunk \<times> real list) list \<Rightarrow> memory_db" where
  \<comment> \<open>the loop \<open>for chunk, embedding in zip(chunks, embeddings, strict=False)\<close> of \<open>index_text\<close>\<close>
  "insert_chunks_text db now [] = db"
| "insert_chunks_text db now ((chunk, embedding) # rest) =
     insert_chunks_text (snd (insert_chunk db now chunk embedding)) now rest"

fun insert_chunks_file ::
  "index_env \<Rightarrow> MemoryIndex \<Rightarrow> memory_db \<Rightarrow> string \<Rightarrow> (Chunk \<times> real list) list \<Rightarrow> memory_db" where
  \<comment> \<open>the same loop of \<open>index_file\<close>, which also writes \<open>chunks_vec\<close>\<close>
  "insert_chunks_file env idx db now [] = db"
| "insert_chunks_file env idx db now ((chunk, embedding) # rest) =
     (case insert_chunk db now chunk embedding of
        (chunk_id, db1) \<Rightarrow>
          insert_chunks_file env idx
            (if use_vec idx \<and> chunk_id \<noteq> 0 then insert_vec env db1 chunk_id embedding else db1)
            now rest)"

definition index_text ::
  "index_env \<Rightarrow> MemoryIndex \<Rightarrow> memory_db \<Rightarrow> string \<Rightarrow> string \<Rightarrow> MemorySource \<Rightarrow> int \<times> memory_db" where
  "index_text env idx db text path source =
    (let content_hash = sha16 env text;
         db1 = delete_chunks_where_path db path;
         chunks = chunk_text_fn env idx text path source
     in if chunks = [] then (0, db1)
        else case embed_batch env (map chunk_text chunks) of
               None \<Rightarrow> (0, db1)
             | Some embeddings \<Rightarrow>
                 let db2 = insert_chunks_text db1 (now_iso env) (zip chunks embeddings);
                     db3 = upsert_file db2 path
                             \<lparr>file_hash = content_hash, file_mtime = 0, file_size = int (length text),
                              file_source = source, file_indexed_at = now_iso env\<rparr>
                 in (int (length chunks), db3))"

definition index_file ::
  "index_env \<Rightarrow> MemoryIndex \<Rightarrow> (string \<rightharpoonup> string \<times> real \<times> int) \<Rightarrow> memory_db \<Rightarrow> string \<Rightarrow> MemorySource
     \<Rightarrow> int \<times> memory_db" where
  "index_file env idx fs db path source =
    (case fs path of
       None \<Rightarrow> (0, db)
     | Some (content, st_mtime, st_size) \<Rightarrow>
         let content_hash = sha16 env content in
         if (case files db path of None \<Rightarrow> False | Some row \<Rightarrow> file_hash row = content_hash)
         then (0, db)
         else
           let db0 = delete_chunks_where_path db path;
               db1 = (if use_vec idx then delete_vec_where_path db0 path else db0);
               chunks = chunk_text_fn env idx content path source
           in if chunks = [] then (0, db1)
              else case embed_batch env (map chunk_text chunks) of
                     None \<Rightarrow> (0, db1)
                   | Some embeddings \<Rightarrow>
                       let db2 = insert_chunks_file env idx db1 (now_iso env) (zip chunks embeddings);
                           db3 = upsert_file db2 path
                                   \<lparr>file_hash = content_hash, file_mtime = st_mtime,
                                    file_size = st_size, file_source = source,
                                    file_indexed_at = now_iso env\<rparr>
                       in (int (length chunks), db3))"

definition get_content :: "(string \<rightharpoonup> string \<times> real \<times> int) \<Rightarrow> memory_db \<Rightarrow> string \<Rightarrow> string option" where
  \<comment> \<open>\<open>MemoryIndex.get\<close>; \<open>ORDER BY start_line\<close> is the stable sort on that column\<close>
  "get_content fs db path =
    (case fs path of
       Some (content, st_mtime, st_size) \<Rightarrow> Some content
     | None \<Rightarrow>
         let rows = sort_key row_start_line (filter (\<lambda>r. row_path r = path) (chunks db))
         in if rows \<noteq> [] then Some (py_join newline (map row_text rows)) else None)"

text \<open>
  The invariant of the specification: one row of \<open>chunks_fts\<close> for each row of \<open>chunks\<close>, and,
  with the vector table in use, one row of \<open>chunks_vec\<close> for each chunk that has an
  embedding. Two lists of ids have the same rows when they are equal once sorted.
\<close>

definition fts_in_sync :: "memory_db \<Rightarrow> bool" where
  "fts_in_sync db = (sort (map fst (chunks_fts db)) = sort (map row_id (chunks db)))"

definition vec_in_sync :: "memory_db \<Rightarrow> bool" where
  "vec_in_sync db =
     (sort (map fst (chunks_vec db))
      = sort (map row_id (filter (\<lambda>r. row_embedding r \<noteq> None) (chunks db))))"

text \<open>
  An index to run: one token per character, the first 16 characters for the hash, a
  provider of two dimensions, chunks of at most 8 tokens.
\<close>

definition sample_env :: index_env where
  "sample_env = \<lparr>count_tokens = length, sha16 = take 16,
     embed_batch = (\<lambda>texts. Some (map (\<lambda>t. [real (length t), 1]) texts)),
     dimensions = 2, now_iso = ''2024-06-01T12:00:00+00:00''\<rparr>"

definition sample_index :: "bool \<Rightarrow> MemoryIndex" where
  "sample_index v = \<lparr>chunk_size = 8, chunk_overlap = 2, use_vec = v\<rparr>"

definition empty_db :: memory_db where
  "empty_db = \<lparr>files = Map.empty, chunks = [], chunks_fts = [], chunks_vec = [], chunk_seq = 0\<rparr>"

text \<open>
  Sequences of indexing calls, and what the triggers maintain: the ids of \<open>chunks\<close> are
  distinct and at most \<open>chunk_seq\<close>, and \<open>chunks_fts\<close> lists them row for row.
\<close>

datatype index_op =
  IndexFile "string \<rightharpoonup> string \<times> real \<times> int" string MemorySource
  | IndexText string string MemorySource

fun run_index_ops :: "index_env \<Rightarrow> MemoryIndex \<Rightarrow> index_op list \<Rightarrow> memory_db \<Rightarrow> memory_db" where
  "run_index_ops env idx [] db = db"
| "run_index_ops env idx (IndexFile fs path source # rest) db =
     run_index_ops env idx rest (snd (index_file env idx fs db path source))"
| "run_index_ops env idx (IndexText content path source # rest) db =
     run_index_ops env idx rest (snd (index_text env idx db content path source))"

definition fts_mirrors_chunks :: "memory_db \<Rightarrow> bool" where
  "fts_mirrors_chunks db =
     (distinct (map row_id (chunks db)) \<and> (\<forall>r \<in> set (chunks db). row_id r \<le> chunk_seq db) \<and>
      map fst (chunks_fts db) = map row_id (chunks db))"

definition file_with :: "string \<Rightarrow> string \<Rightarrow> (string \<rightharpoonup> string \<times> real \<times> int)" where
  "file_with path content = [path \<mapsto> (content, 0, int (length content))]"

section \<open>Context store: the history file\<close>

text \<open>
  A time stamp is a value of a type \<open>'t\<close> with the operations of \<open>datetime\<close> that the store
  uses: \<open>isoformat\<close>, \<open>fromisoformat\<close> (\<open>None\<close> when it raises \<open>ValueError\<close>) and the clock
  \<open>datetime.now(UTC)\<close>.
\<close>

record 't datetime_ops =
  isoformat :: "'t \<Rightarrow> string"
  fromisoformat :: "string \<Rightarrow> 't option"
  utcnow :: 't

record 't ConversationTurn =
  turn_role :: string
  turn_content :: string
  turn_timestamp :: 't
  turn_metadata :: "(string \<times> string) list"

text \<open>
  \<open>ContextStore._format_history\<close>: the title, then for each turn its header line, its
  content and a line break, all joined by line breaks.
\<close>

definition header_line :: "'t datetime_ops \<Rightarrow> 't ConversationTurn \<Rightarrow> string" where
  "header_line clk turn =
     ''## '' @ (if turn_role turn = ''user'' then ''User'' else ''Assistant'') @ '' - ''
     @ isoformat clk (turn_timestamp turn)"

definition format_history :: "'t datetime_ops \<Rightarrow> 't ConversationTurn list \<Rightarrow> string" where
  "format_history clk history =
     py_join newline
       ((''# Conversation History'' @ newline)
        # concat (map (\<lambda>turn. [header_line clk turn @ newline, turn_content turn, newline])
                   history))"

text \<open>
  \<open>ContextStore._parse_history\<close>. The state of its loop is
  \<open>(history, current_role, current_content, current_timestamp)\<close>; \<open>close_turn\<close> is the
  \<open>history.append\<close> under \<open>if current_role and current_content\<close>, which the loop runs at a
  header and the function once more at the end.
\<close>

type_synonym 't parse_state =
  "'t ConversationTurn list \<times> string option \<times> string list \<times> 't option"

definition close_turn :: "'t datetime_ops \<Rightarrow> 't parse_state \<Rightarrow> 't ConversationTurn list" where
  "close_turn clk st =
     (case st of (history, current_role, current_content, current_timestamp) \<Rightarrow>
        (case current_role of
           None \<Rightarrow> history
         | Some r \<Rightarrow>
             if current_content \<noteq> []
             then history @
                    [\<lparr>turn_role = r, turn_content = py_strip (py_join newline current_content),
                      turn_timestamp =
                        (case current_timestamp of None \<Rightarrow> utcnow clk | Some t \<Rightarrow> t),
                      turn_metadata = []\<rparr>]
             else history))"

definition header_timestamp :: "'t datetime_ops \<Rightarrow> string \<Rightarrow> 't option \<Rightarrow> 't option" where
  \<comment> \<open>\<open>current_timestamp\<close> after a header line\<close>
  "header_timestamp clk line current_timestamp =
     (if contains '' - '' line then
        (case py_split '' - '' line of
           _ # ts_str # _ \<Rightarrow>
             (case fromisoformat clk ts_str of
                Some t \<Rightarrow> Some t
              | None \<Rightarrow> Some (utcnow clk))
         | _ \<Rightarrow> Some (utcnow clk))
      else current_timestamp)"

definition parse_line :: "'t datetime_ops \<Rightarrow> string \<Rightarrow> 't parse_state \<Rightarrow> 't parse_state" where
  "parse_line clk line st =
     (case st of (history, current_role, current_content, current_timestamp) \<Rightarrow>
        if prefix ''## User'' line then
          (close_turn clk st, Some ''user'', [], header_timestamp clk line current_timestamp)
        else if prefix ''## Assistant'' line then
          (close_turn clk st, Some ''assistant'', [], header_timestamp clk line current_timestamp)
        else if current_role \<noteq> None then
          (history, current_role, current_content @ [line], current_timestamp)
        else st)"

definition parse_history :: "'t datetime_ops \<Rightarrow> string \<Rightarrow> 't ConversationTurn list" where
  "parse_history clk content =
     close_turn clk (fold (parse_line clk) (splitlines_nl content) ([], None, [], None))"

text \<open>
  The round trip of the specification, and the two conditions under which the code
  makes it: \<open>isoformat\<close> writes neither a blank nor a line break and \<open>fromisoformat\<close> reads
  back what it wrote; the content of a turn has no whitespace at either end and no
  line that starts like a header.
\<close>

definition spec_round_trip :: "'t datetime_ops \<Rightarrow> 't ConversationTurn list \<Rightarrow> bool" where
  "spec_round_trip clk history =
     (format_history clk (parse_history clk (format_history clk history))
      = format_history clk history)"

definition iso_ok :: "'t datetime_ops \<Rightarrow> 't \<Rightarrow> bool" where
  "iso_ok clk t =
     (fromisoformat clk (isoformat clk t) = Some t \<and> CHR '' '' \<notin> set (isoformat clk t) \<and>
      CHR 0x0A \<notin> set (isoformat clk t))"

definition storable_content :: "string \<Rightarrow> bool" where
  "storable_content c =
     (py_strip c = c \<and>
      list_all (\<lambda>l. \<not> prefix ''## User'' l \<and> \<not> prefix ''## Assistant'' l) (splitlines_nl c))"

definition storable :: "'t datetime_ops \<Rightarrow> 't ConversationTurn \<Rightarrow> bool" where
  "storable clk turn = (iso_ok clk (turn_timestamp turn) \<and> storable_content (turn_content turn))"

text \<open>What parsing makes of a stored turn, and the lines a turn takes in the file.\<close>

definition reread :: "'t ConversationTurn \<Rightarrow> 't ConversationTurn" where
  "reread turn =
     \<lparr>turn_role = (if turn_role turn = ''user'' then ''user'' else ''assistant''),
      turn_content = turn_content turn, turn_timestamp = turn_timestamp turn,
      turn_metadata = []\<rparr>"

definition turn_lines :: "'t datetime_ops \<Rightarrow> 't ConversationTurn \<Rightarrow> string list" where
  "turn_lines clk turn =
     [header_line clk turn, []] @ splitlines_nl (turn_content turn) @ [[], []]"

text \<open>
  A clock to run the store on: time stamps are written as they are, and any string
  is read back as itself.
\<close>

definition text_clock :: "string datetime_ops" where
  "text_clock = \<lparr>isoformat = (\<lambda>t. t), fromisoformat = Some, utcnow = ''2024-06-01T12:00:00+00:00''\<rparr>"

definition sample_turn :: "string \<Rightarrow> string \<Rightarrow> string ConversationTurn" where
  "sample_turn r c =
     \<lparr>turn_role = r, turn_content = c, turn_timestamp = ''2024-01-01T09:30:00+00:00'',
      turn_metadata = []\<rparr>"

section \<open>Directive parser\<close>

text \<open>
  The patterns of \<open>directives.py\<close> are a literal \<open>/word\<close> followed by \<open>\b\<close>, matched with
  \<open>re.IGNORECASE\<close>. On the code points of the model a pattern letter matches its two
  ASCII cases and \<open>/\<close> matches itself. \<open>\b\<close> holds between two positions when exactly one of
  the characters next to it is a word character (\<open>\w\<close>: alphanumeric or \<open>_\<close>); the start and
  the end of the text count as non-word.
\<close>

datatype MessageDirective = THINK | VERBOSE | REASONING | ELEVATED

datatype PromptMode = PM_FULL | PM_MINIMAL | PM_NONE

record ParsedDirectives =
  directives :: "MessageDirective list"
  clean_text :: string
  prompt_mode :: PromptMode
  tool_profile :: ToolProfile
  elevated :: bool

definition is_word :: "char \<Rightarrow> bool" where
  "is_word c = (isalnum c \<or> c = CHR ''_'')"

definition lower_ascii :: "char \<Rightarrow> char" where
  "lower_ascii c = (if 65 \<le> ord c \<and> ord c \<le> 90 then char_of (ord c + 32) else c)"

definition ci_match :: "char \<Rightarrow> char \<Rightarrow> bool" where
  \<comment> \<open>the pattern character \<open>p\<close> matches the text character \<open>c\<close>, ignoring case\<close>
  "ci_match p c = (lower_ascii c = lower_ascii p)"

fun ci_prefix :: "string \<Rightarrow> string \<Rightarrow> bool" where
  "ci_prefix [] s = True"
| "ci_prefix (p # ps) [] = False"
| "ci_prefix (p # ps) (c # cs) = (ci_match p c \<and> ci_prefix ps cs)"

definition word_at :: "string \<Rightarrow> bool" where
  \<comment> \<open>whether the text starts with a word character\<close>
  "word_at s = (case s of [] \<Rightarrow> False | c # _ \<Rightarrow> is_word c)"

definition token_matches_at :: "string \<Rightarrow> string \<Rightarrow> bool" where
  \<comment> \<open>\<open>tok\<close> followed by \<open>\b\<close> matches at the start of \<open>s\<close>\<close>
  "token_matches_at tok s =
     (ci_prefix tok s \<and>
      word_at (rev (take (length tok) s)) \<noteq> word_at (drop (length tok) s))"

fun re_search :: "string \<Rightarrow> string \<Rightarrow> bool" where
  \<comment> \<open>\<open>re.search(tok + r"\b", s, re.IGNORECASE)\<close> finds a match\<close>
  "re_search tok [] = token_matches_at tok []"
| "re_search tok (c # cs) = (token_matches_at tok (c # cs) \<or> re_search tok cs)"

fun re_sub_remove :: "string \<Rightarrow> string \<Rightarrow> string" where
  \<comment> \<open>\<open>re.sub(tok + r"\b", "", s, flags=re.IGNORECASE)\<close>, for a non-empty \<open>tok\<close>\<close>
  "re_sub_remove tok [] = []"
| "re_sub_remove tok (c # cs) =
     (if token_matches_at tok (c # cs) then re_sub_remove tok (drop (length tok - 1) cs)
      else c # re_sub_remove tok cs)"

function collapse_ws :: "string \<Rightarrow> string" where
  \<comment> \<open>\<open>re.sub(r"\s+", " ", s)\<close>\<close>
  "collapse_ws [] = []"
| "collapse_ws (c # cs) =
     (if isspace c then CHR '' '' # collapse_ws (dropWhile isspace cs) else c # collapse_ws cs)"
  by pat_completeness auto
termination
  by (relation "measure length") (auto simp: le_imp_less_Suc length_dropWhile_le)

definition DIRECTIVE_PATTERNS :: "(string \<times> MessageDirective) list" where
  "DIRECTIVE_PATTERNS =
     [(''/think'', THINK), (''/verbose'', VERBOSE), (''/reasoning'', REASONING),
      (''/elevated'', ELEVATED)]"

definition TOOL_PROFILE_PATTERNS :: "(string \<times> ToolProfile) list" where
  "TOOL_PROFILE_PATTERNS =
     [(''/minimal'', MINIMAL), (''/coding'', CODING), (''/messaging'', MESSAGING),
      (''/full'', FULL)]"

definition PROMPT_MODE_PATTERNS :: "(string \<times> PromptMode) list" where
  "PROMPT_MODE_PATTERNS = [(''/quiet'', PM_MINIMAL), (''/silent'', PM_NONE)]"

text \<open>
  The three loops of \<open>parse_directives\<close>, one step for each item of the dictionary, in the
  dictionary's order.
\<close>

fun directive_step ::
  "string \<times> MessageDirective \<Rightarrow> MessageDirective list \<times> bool \<times> string
     \<Rightarrow> MessageDirective list \<times> bool \<times> string" where
  "directive_step (pattern, directive) (ds, el, text) =
     (if re_search pattern text
      then (ds @ [directive], (if directive = ELEVATED then True else el),
            re_sub_remove pattern text)
      else (ds, el, text))"

fun value_step :: "string \<times> 'v \<Rightarrow> 'v \<times> string \<Rightarrow> 'v \<times> string" where
  "value_step (pattern, v) (current, text) =
     (if re_search pattern text then (v, re_sub_remove pattern text) else (current, text))"

definition parse_directives :: "string \<Rightarrow> ParsedDirectives" where
  "parse_directives text =
    (if text = [] then
       \<lparr>directives = [], clean_text = [], prompt_mode = PM_FULL, tool_profile = FULL,
        elevated = False\<rparr>
     else
       case fold directive_step DIRECTIVE_PATTERNS ([], False, text) of
         (ds, el, text1) \<Rightarrow>
           (case fold value_step TOOL_PROFILE_PATTERNS (FULL, text1) of
              (profile, text2) \<Rightarrow>
                (case fold value_step PROMPT_MODE_PATTERNS (PM_FULL, text2) of
                   (mode, text3) \<Rightarrow>
                     \<lparr>directives = ds, clean_text = py_strip (collapse_ws text3),
                      prompt_mode = mode, tool_profile = profile, elevated = el\<rparr>)))"

text \<open>
  For the statements: the known patterns, the shape of a token (\<open>/\<close> and lower-case ASCII
  letters), and, as the specification words it, the profile and the mode of the token
  that occurs last in the text.
\<close>

definition known_patterns :: "string list" where
  "known_patterns =
     map fst DIRECTIVE_PATTERNS @ map fst TOOL_PROFILE_PATTERNS @ map fst PROMPT_MODE_PATTERNS"

definition is_lower_letter :: "char \<Rightarrow> bool" where
  "is_lower_letter c = (97 \<le> ord c \<and> ord c \<le> 122)"

definition slash_word :: "string \<Rightarrow> bool" where
  "slash_word tok =
     (case tok of [] \<Rightarrow> False | c # w \<Rightarrow> c = CHR ''/'' \<and> w \<noteq> [] \<and> list_all is_lower_letter w)"

fun value_at :: "(string \<times> 'v) list \<Rightarrow> string \<Rightarrow> 'v option" where
  "value_at [] s = None"
| "value_at ((pattern, v) # rest) s =
     (if token_matches_at pattern s then Some v else value_at rest s)"

fun last_token_value :: "(string \<times> 'v) list \<Rightarrow> string \<Rightarrow> 'v option \<Rightarrow> 'v option" where
  "last_token_value pats [] seen = seen"
| "last_token_value pats (c # cs) seen =
     last_token_value pats cs
       (case value_at pats (c # cs) of None \<Rightarrow> seen | Some v \<Rightarrow> Some v)"

definition spec_tool_profile :: "string \<Rightarrow> ToolProfile" where
  "spec_tool_profile text =
     (case last_token_value TOOL_PROFILE_PATTERNS text None of None \<Rightarrow> FULL | Some v \<Rightarrow> v)"

definition word_after :: "string \<Rightarrow> string" where
  \<comment> \<open>the word characters the text starts with, in lower case\<close>
  "word_after s = map lower_ascii (takeWhile is_word s)"

definition remove_all :: "string list \<Rightarrow> string \<Rightarrow> string" where
  \<comment> \<open>the text after the substitutions for the patterns, in their order\<close>
  "remove_all pats s = fold re_sub_remove pats s"

definition normalize_ws :: "string \<Rightarrow> string" where
  \<comment> \<open>\<open>re.sub(r"\s+", " ", s).strip()\<close>\<close>
  "normalize_ws s = py_strip (collapse_ws s)"

definition space_at :: "string \<Rightarrow> bool" where
  \<comment> \<open>whether the text starts with a whitespace character\<close>
  "space_at s = (case s of [] \<Rightarrow> False | c # _ \<Rightarrow> isspace c)"

fun single_spaced :: "string \<Rightarrow> bool" where
  \<comment> \<open>every whitespace character is one blank, and no two of them are adjacent\<close>
  "single_spaced [] = True"
| "single_spaced (c # cs) =
     (if isspace c then c = CHR '' '' \<and> \<not> space_at cs \<and> single_spaced cs
      else single_spaced cs)"

definition last_in_order :: "(string \<times> 'v) list \<Rightarrow> string \<Rightarrow> 'v \<Rightarrow> 'v" where
  \<comment> \<open>the value of the last pattern, in the dictionary's order, that the text matches\<close>
  "last_in_order pats s dflt = fold (\<lambda>(p, v) acc. if re_search p s then v else acc) pats dflt"

definition spec_reparse_same :: "string \<Rightarrow> bool" where
  \<comment> \<open>the idempotence of the specification: parsing the cleaned text gives the same
      result with no directives\<close>
  "spec_reparse_same text =
     (let p = parse_directives text; q = parse_directives (clean_text p) in
      clean_text q = clean_text p \<and> prompt_mode q = prompt_mode p \<and>
      tool_profile q = tool_profile p \<and> elevated q = elevated p \<and> directives q = [])"

chapter \<open>OpenBotX: the properties\<close>

section \<open>Storage keys: the sanitiser\<close>

lemma ord_eq_iff: "ord c = ord d \<longleftrightarrow> c = d"
  by (simp add: ord_def)

lemma ord_dash: "ord CHR ''-'' = 45" and ord_underscore: "ord CHR ''_'' = 95"
  by (simp_all add: ord_def)

lemma isalnum_ascii:
  "ord c < 128 \<Longrightarrow> isalnum c \<longleftrightarrow>
     (48 \<le> ord c \<and> ord c \<le> 57) \<or> (65 \<le> ord c \<and> ord c \<le> 90) \<or> (97 \<le> ord c \<and> ord c \<le> 122)"
  unfolding isalnum_def Let_def by linarith

lemma ascii_key_char_ascii: "ascii_key_char c \<Longrightarrow> ord c < 128"
  unfolding ascii_key_char_def Let_def by linarith

lemma ascii_key_char_iff:
  "ascii_key_char c \<longleftrightarrow> ord c < 128 \<and> (isalnum c \<or> c \<in> set ''-_'')"
proof -
  have d: "c = CHR ''-'' \<longleftrightarrow> ord c = 45" using ord_eq_iff [of c "CHR ''-''"] by (simp add: ord_dash)
  have u: "c = CHR ''_'' \<longleftrightarrow> ord c = 95" using ord_eq_iff [of c "CHR ''_''"] by (simp add: ord_underscore)
  show ?thesis
  proof (cases "ord c < 128")
    case True
    then show ?thesis using d u
      by (simp add: isalnum_ascii ascii_key_char_def Let_def) linarith
  next
    case False
    then show ?thesis using ascii_key_char_ascii by blast
  qed
qed

text \<open>
  C9 (as amended). The storage key has the length of the channel id; a character of
  \<open>[A-Za-z0-9_-]\<close> is kept, any other ASCII character becomes \<open>_\<close>, and a non-ASCII
  character is kept exactly when \<open>str.isalnum\<close> holds of it.
\<close>

theorem safe_id_chars:
  "length (safe_id cid) = length cid \<and>
   (\<forall>i < length cid.
      (ascii_key_char (cid ! i) \<longrightarrow> safe_id cid ! i = cid ! i) \<and>
      (ord (cid ! i) < 128 \<and> \<not> ascii_key_char (cid ! i) \<longrightarrow> safe_id cid ! i = CHR ''_'') \<and>
      (128 \<le> ord (cid ! i) \<longrightarrow>
         safe_id cid ! i = (if isalnum (cid ! i) then cid ! i else CHR ''_'')))"
proof -
  have "128 \<le> ord c \<Longrightarrow> c \<notin> set ''-_''" for c
    using ord_dash ord_underscore by auto
  then show ?thesis
    by (auto simp: safe_id_def ascii_key_char_iff)
qed

theorem safe_id_chars_witness:
  "safe_id ''tg-42/a b'' = ''tg-42_a_b'' \<and> safe_id [CHR 0xE9, CHR 0xD7] = [CHR 0xE9, CHR ''_'']"
  using safe_id_chars [of "''tg-42/a b''"] safe_id_chars [of "[CHR 0xE9, CHR 0xD7]"]
  by (simp add: safe_id_def isalnum_def ord_def)

theorem safe_id_not_ascii_class_counterexample:
  "safe_id [CHR 0xE9] \<noteq> spec_safe_id [CHR 0xE9]"
  by (simp add: safe_id_def spec_safe_id_def isalnum_def ascii_key_char_def ord_def)

section \<open>Tool policy: the order of the rules\<close>

lemma find_allowed_None_iff: "find P xs = None \<longleftrightarrow> \<not> list_ex P xs"
  by (induction xs) auto

lemma find_allowed_Some: "find P xs = Some x \<Longrightarrow> list_ex P xs"
  by (induction xs) (auto split: if_splits)

lemma evaluate_denylist:
  "tool_name tool \<in> set (denylist cfg) \<Longrightarrow> \<not> allowed (evaluate cfg tool profile elev)"
  by (simp add: evaluate_def)

lemma evaluate_allowlist:
  "tool_name tool \<notin> set (denylist cfg) \<Longrightarrow> tool_name tool \<in> set (allowlist cfg) \<Longrightarrow>
   allowed (evaluate cfg tool profile elev) \<and>
   requires_approval (evaluate cfg tool profile elev) = approval_required tool"
  by (simp add: evaluate_def)

lemma evaluate_admin_only:
  "tool_name tool \<notin> set (denylist cfg) \<Longrightarrow> tool_name tool \<notin> set (allowlist cfg) \<Longrightarrow>
   admin_only tool \<and> \<not> elev \<Longrightarrow>
   \<not> allowed (evaluate cfg tool profile elev) \<and>
   requires_elevation (evaluate cfg tool profile elev)"
  by (simp add: evaluate_def)

lemma evaluate_dangerous:
  "tool_name tool \<notin> set (denylist cfg) \<Longrightarrow> tool_name tool \<notin> set (allowlist cfg) \<Longrightarrow>
   \<not> (admin_only tool \<and> \<not> elev) \<Longrightarrow>
   (dangerous tool \<or> tool_name tool \<in> set (dangerous_tools cfg)) \<and> \<not> elev \<Longrightarrow>
   \<not> allowed (evaluate cfg tool profile elev) \<and>
   requires_elevation (evaluate cfg tool profile elev)"
  by (simp add: evaluate_def)

lemma evaluate_groups:
  assumes "tool_name tool \<notin> set (denylist cfg)" "tool_name tool \<notin> set (allowlist cfg)"
    "\<not> (admin_only tool \<and> \<not> elev)"
    "\<not> ((dangerous tool \<or> tool_name tool \<in> set (dangerous_tools cfg)) \<and> \<not> elev)"
  shows "allowed (evaluate cfg tool profile elev) \<longleftrightarrow>
     (if has_no_group tool then profile = FULL else in_allowed_group cfg tool profile)"
proof (cases "has_no_group tool")
  case True
  with assms show ?thesis
    by (simp add: evaluate_def has_no_group_def)
next
  case False
  let ?A = "get_allowed_groups cfg profile"
  from assms False have e: "evaluate cfg tool profile elev =
       (case (case group tool of None \<Rightarrow> None
               | Some g \<Rightarrow> if g \<in> ?A then Some g else None) of
           Some g \<Rightarrow>
             \<lparr>allowed = True,
              reason = ''Tool group '' @ [CHR 0x27] @ group_value g @ [CHR 0x27]
                       @ '' is allowed in profile '' @ [CHR 0x27] @ profile_value profile @ [CHR 0x27],
              requires_approval = approval_required tool, requires_elevation = False\<rparr>
         | None \<Rightarrow>
             (case find (\<lambda>g. g \<in> ?A) (groups tool) of
                Some g \<Rightarrow>
                  \<lparr>allowed = True,
                   reason = ''Tool group '' @ [CHR 0x27] @ group_value g @ [CHR 0x27]
                            @ '' is allowed in profile '' @ [CHR 0x27] @ profile_value profile
                            @ [CHR 0x27],
                   requires_approval = approval_required tool, requires_elevation = False\<rparr>
              | None \<Rightarrow>
                  \<lparr>allowed = False,
                   reason = ''Tool '' @ [CHR 0x27] @ tool_name tool @ [CHR 0x27]
                            @ '' is not allowed in profile '' @ [CHR 0x27] @ profile_value profile
                            @ [CHR 0x27],
                   requires_approval = False, requires_elevation = False\<rparr>))"
    unfolding evaluate_def Let_def has_no_group_def by (simp only: if_False if_not_P)
  show ?thesis
  proof (cases "find (\<lambda>g. g \<in> ?A) (groups tool)")
    case None
    then have "\<not> list_ex (\<lambda>g. g \<in> ?A) (groups tool)"
      by (simp add: find_allowed_None_iff)
    with None False show ?thesis
      unfolding e in_allowed_group_def by (simp split: option.splits)
  next
    case (Some g)
    with False find_allowed_Some [OF Some] show ?thesis
      unfolding e in_allowed_group_def by (simp split: option.splits)
  qed
qed

lemma no_group_not_in_allowed_group: "has_no_group tool \<Longrightarrow> \<not> in_allowed_group cfg tool profile"
  by (simp add: has_no_group_def in_allowed_group_def)

text \<open>
  C7. \<open>evaluate\<close> decides by the first applicable rule of: denylist (deny), allowlist
  (allow, approval as the tool asks), admin-only without elevation (deny, elevation
  required), dangerous without elevation (deny, elevation required), a primary or
  secondary group among the profile's allowed groups (allow), no group at all (allow
  exactly under the full profile), anything else (deny).
\<close>

theorem evaluate_rule_order:
  fixes cfg :: ToolPolicyConfig and tool :: ToolInfo and profile :: ToolProfile and elev :: bool
  defines "r \<equiv> evaluate cfg tool profile elev"
  shows
  "(tool_name tool \<in> set (denylist cfg) \<longrightarrow> \<not> allowed r) \<and>
   (tool_name tool \<notin> set (denylist cfg) \<and> tool_name tool \<in> set (allowlist cfg) \<longrightarrow>
      allowed r \<and> requires_approval r = approval_required tool) \<and>
   (tool_name tool \<notin> set (denylist cfg) \<and> tool_name tool \<notin> set (allowlist cfg) \<longrightarrow>
      (admin_only tool \<and> \<not> elev \<longrightarrow> \<not> allowed r \<and> requires_elevation r) \<and>
      (\<not> (admin_only tool \<and> \<not> elev) \<longrightarrow>
         ((dangerous tool \<or> tool_name tool \<in> set (dangerous_tools cfg)) \<and> \<not> elev \<longrightarrow>
            \<not> allowed r \<and> requires_elevation r) \<and>
         (\<not> ((dangerous tool \<or> tool_name tool \<in> set (dangerous_tools cfg)) \<and> \<not> elev) \<longrightarrow>
            (in_allowed_group cfg tool profile \<longrightarrow> allowed r) \<and>
            (\<not> in_allowed_group cfg tool profile \<longrightarrow>
               (has_no_group tool \<longrightarrow> (allowed r \<longleftrightarrow> profile = FULL)) \<and>
               (\<not> has_no_group tool \<longrightarrow> \<not> allowed r)))))"
proof -
  have g1: "allowed r \<longleftrightarrow> profile = FULL"
    if "tool_name tool \<notin> set (denylist cfg)" "tool_name tool \<notin> set (allowlist cfg)"
      "\<not> (admin_only tool \<and> \<not> elev)"
      "\<not> ((dangerous tool \<or> tool_name tool \<in> set (dangerous_tools cfg)) \<and> \<not> elev)"
      "has_no_group tool"
    unfolding r_def using that evaluate_groups [of tool cfg elev profile] by simp
  have g2: "allowed r \<longleftrightarrow> in_allowed_group cfg tool profile"
    if "tool_name tool \<notin> set (denylist cfg)" "tool_name tool \<notin> set (allowlist cfg)"
      "\<not> (admin_only tool \<and> \<not> elev)"
      "\<not> ((dangerous tool \<or> tool_name tool \<in> set (dangerous_tools cfg)) \<and> \<not> elev)"
      "\<not> has_no_group tool"
    unfolding r_def using that evaluate_groups [of tool cfg elev profile] by simp
  have n: "has_no_group tool \<Longrightarrow> \<not> in_allowed_group cfg tool profile"
    by (rule no_group_not_in_allowed_group)
  have d: "tool_name tool \<in> set (denylist cfg) \<Longrightarrow> \<not> allowed r"
    unfolding r_def by (rule evaluate_denylist)
  have a: "tool_name tool \<notin> set (denylist cfg) \<Longrightarrow> tool_name tool \<in> set (allowlist cfg) \<Longrightarrow>
     allowed r \<and> requires_approval r = approval_required tool"
    unfolding r_def by (rule evaluate_allowlist)
  have ad: "tool_name tool \<notin> set (denylist cfg) \<Longrightarrow> tool_name tool \<notin> set (allowlist cfg) \<Longrightarrow>
     admin_only tool \<and> \<not> elev \<Longrightarrow> \<not> allowed r \<and> requires_elevation r"
    unfolding r_def by (rule evaluate_admin_only)
  have dg: "tool_name tool \<notin> set (denylist cfg) \<Longrightarrow> tool_name tool \<notin> set (allowlist cfg) \<Longrightarrow>
     \<not> (admin_only tool \<and> \<not> elev) \<Longrightarrow>
     (dangerous tool \<or> tool_name tool \<in> set (dangerous_tools cfg)) \<and> \<not> elev \<Longrightarrow>
     \<not> allowed r \<and> requires_elevation r"
    unfolding r_def by (rule evaluate_dangerous)
  show ?thesis
    using g1 g2 n d a ad dg by (intro conjI impI; (elim conjE)?) blast+
qed

theorem evaluate_rule_order_witness:
  "\<not> allowed (evaluate sample_policy (sample_tool ''rm'' None [] False False) FULL True) \<and>
   allowed (evaluate sample_policy (sample_tool ''deploy'' None [] True True) MINIMAL False) \<and>
   requires_approval (evaluate sample_policy (sample_tool ''deploy'' None [] True True) MINIMAL False) \<and>
   \<not> allowed (evaluate sample_policy (sample_tool ''sudo'' (Some SYSTEM) [] False True) FULL False) \<and>
   requires_elevation (evaluate sample_policy (sample_tool ''sudo'' (Some SYSTEM) [] False True) FULL False) \<and>
   \<not> allowed (evaluate sample_policy (sample_tool ''shell'' (Some SYSTEM) [] False False) FULL False) \<and>
   requires_elevation (evaluate sample_policy (sample_tool ''shell'' (Some SYSTEM) [] False False) FULL False) \<and>
   allowed (evaluate sample_policy (sample_tool ''fetch'' (Some UI) [MEMORY, WEB] False False) CODING False) \<and>
   allowed (evaluate sample_policy (sample_tool ''echo'' None [] False False) FULL False) \<and>
   \<not> allowed (evaluate sample_policy (sample_tool ''echo'' None [] False False) CODING False) \<and>
   \<not> allowed (evaluate sample_policy (sample_tool ''sql'' (Some DATABASE) [] False False) CODING False)"
  using evaluate_rule_order [of "sample_tool ''rm'' None [] False False" sample_policy FULL True]
    evaluate_rule_order [of "sample_tool ''deploy'' None [] True True" sample_policy MINIMAL False]
    evaluate_rule_order [of "sample_tool ''sudo'' (Some SYSTEM) [] False True" sample_policy FULL False]
    evaluate_rule_order [of "sample_tool ''shell'' (Some SYSTEM) [] False False" sample_policy FULL False]
    evaluate_rule_order [of "sample_tool ''fetch'' (Some UI) [MEMORY, WEB] False False" sample_policy CODING False]
    evaluate_rule_order [of "sample_tool ''echo'' None [] False False" sample_policy FULL False]
    evaluate_rule_order [of "sample_tool ''echo'' None [] False False" sample_policy CODING False]
    evaluate_rule_order [of "sample_tool ''sql'' (Some DATABASE) [] False False" sample_policy CODING False]
  by (simp add: sample_policy_def sample_tool_def in_allowed_group_def has_no_group_def
      get_allowed_groups_def)

section \<open>Compaction: what fits the budget\<close>

lemma sum_tokens_Nil: "sum_tokens ct [] = 0"
  by (simp add: sum_tokens_def)

lemma sum_tokens_Cons:
  "sum_tokens ct (m # ms) = int (ct (msg_get m ''content'' '''')) + sum_tokens ct ms"
  by (simp add: sum_tokens_def)

lemma summary_tokens_nonneg: "0 \<le> summary_tokens ct s"
  by (simp add: summary_tokens_def split: option.splits)

lemma keep_fitting_inv:
  "keep_fitting ct a ms (k, c, r) = (k', c', r') \<Longrightarrow> c = sum_tokens ct k \<Longrightarrow>
   (k \<noteq> [] \<longrightarrow> c \<le> a) \<Longrightarrow>
   c' = sum_tokens ct k' \<and> (k' \<noteq> [] \<longrightarrow> c' \<le> a)"
proof (induction ms arbitrary: k c r)
  case Nil
  then show ?case by auto
next
  case (Cons m ms)
  let ?t = "int (ct (msg_get m ''content'' ''''))"
  show ?case
  proof (cases "c + ?t \<le> a")
    case True
    with Cons.prems(1) have "keep_fitting ct a ms (m # k, c + ?t, r) = (k', c', r')"
      by simp
    moreover have "c + ?t = sum_tokens ct (m # k)"
      using Cons.prems(2) by (simp add: sum_tokens_Cons)
    ultimately show ?thesis
      using True by (intro Cons.IH [of "m # k" "c + ?t" r]) simp_all
  next
    case False
    with Cons.prems(1) have "keep_fitting ct a ms (k, c, r + 1) = (k', c', r')"
      by simp
    then show ?thesis
      using Cons.prems(2,3) by (rule Cons.IH)
  qed
qed

lemma keep_fitting_fits:
  assumes "keep_fitting ct a ms ([], 0, 0) = (k, c, r)"
  shows "c = sum_tokens ct k \<and> (k \<noteq> [] \<longrightarrow> sum_tokens ct k \<le> a)"
  using keep_fitting_inv [OF assms] by (auto simp: sum_tokens_Nil)

lemma keep_recent_inv:
  "keep_recent ct a n i ms (k, c, x) = (k', c', x') \<Longrightarrow> c = sum_tokens ct k \<Longrightarrow>
   (k \<noteq> [] \<longrightarrow> c \<le> a) \<Longrightarrow>
   c' = sum_tokens ct k' \<and> (k' \<noteq> [] \<longrightarrow> c' \<le> a)"
proof (induction ms arbitrary: k c x i)
  case Nil
  then show ?case by auto
next
  case (Cons m ms)
  let ?t = "int (ct (msg_get m ''content'' ''''))"
  show ?case
  proof (cases "c + ?t \<le> a")
    case True
    with Cons.prems(1)
    have "keep_recent ct a n (i + 1) ms (m # k, c + ?t, n - i - 1) = (k', c', x')"
      by simp
    moreover have "c + ?t = sum_tokens ct (m # k)"
      using Cons.prems(2) by (simp add: sum_tokens_Cons)
    ultimately show ?thesis
      using True by (intro Cons.IH [of "i + 1" "m # k" "c + ?t" "n - i - 1"]) simp_all
  next
    case False
    with Cons.prems show ?thesis by auto
  qed
qed

lemma truncate_fits:
  fixes ct :: "string \<Rightarrow> nat" and msgs :: "message list" and b :: int and s :: "string option"
  defines "r \<equiv> compact_truncate ct msgs b s"
  shows "summary r = s \<and>
    (messages r \<noteq> [] \<or> summary_tokens ct s \<le> b \<longrightarrow>
       sum_tokens ct (messages r) + summary_tokens ct (summary r) \<le> b)"
proof -
  obtain k c x where w: "keep_fitting ct (b - summary_tokens ct s) (rev msgs) ([], 0, 0) = (k, c, x)"
    by (metis prod_cases3)
  then have m: "messages r = k" and "summary r = s"
    by (simp_all add: r_def compact_truncate_def Let_def)
  moreover have "k \<noteq> [] \<longrightarrow> sum_tokens ct k \<le> b - summary_tokens ct s"
    using keep_fitting_fits [OF w] by simp
  ultimately show ?thesis
    by (auto simp: sum_tokens_Nil)
qed

lemma py_slice_from_last:
  "0 < k \<Longrightarrow> py_slice_from xs (- k) = drop (length xs - nat k) xs"
proof -
  assume "0 < k"
  then have "nat (max 0 (int (length xs) + - k)) = length xs - nat k"
    by (simp add: max_def) arith
  with \<open>0 < k\<close> show ?thesis
    by (simp add: py_slice_from_def)
qed

lemma adaptive_fits:
  fixes ct :: "string \<Rightarrow> nat" and msgs :: "message list" and b :: int and s :: "string option"
    and cfg :: CompactionConfig
  defines "r \<equiv> compact_adaptive ct cfg msgs b s"
  shows "summary r = s \<and>
    (floor_triggered ct cfg msgs b s \<longrightarrow>
       messages r = py_slice_from msgs (- min_messages_to_keep cfg) \<and>
       length (messages r) = min (nat (min_messages_to_keep cfg)) (length msgs)) \<and>
    (\<not> floor_triggered ct cfg msgs b s \<longrightarrow>
       (messages r \<noteq> [] \<or> summary_tokens ct s \<le> b \<longrightarrow>
          sum_tokens ct (messages r) + summary_tokens ct (summary r) \<le> b))"
proof -
  obtain k c x where w: "keep_fitting ct (b - summary_tokens ct s) (rev msgs) ([], 0, 0) = (k, c, x)"
    by (metis prod_cases3)
  have fl: "floor_triggered ct cfg msgs b s \<longleftrightarrow> int (length k) < min_messages_to_keep cfg"
    by (simp add: floor_triggered_def w)
  have s: "summary r = s"
    by (simp add: r_def compact_adaptive_def Let_def w split: prod.splits)
  show ?thesis
  proof (cases "floor_triggered ct cfg msgs b s")
    case True
    then have pos: "0 < min_messages_to_keep cfg"
      using fl by linarith
    from True have m: "messages r = py_slice_from msgs (- min_messages_to_keep cfg)"
      using fl by (simp add: r_def compact_adaptive_def Let_def w)
    have "length (py_slice_from msgs (- min_messages_to_keep cfg))
          = min (nat (min_messages_to_keep cfg)) (length msgs)"
      using pos by (simp add: py_slice_from_last)
    with True m s show ?thesis by simp
  next
    case False
    then have m: "messages r = k"
      using fl by (simp add: r_def compact_adaptive_def Let_def w)
    have "k \<noteq> [] \<longrightarrow> sum_tokens ct k \<le> b - summary_tokens ct s"
      using keep_fitting_fits [OF w] by simp
    with False m s show ?thesis
      by (auto simp: sum_tokens_Nil)
  qed
qed

lemma progressive_fits:
  fixes ct :: "string \<Rightarrow> nat" and msgs :: "message list" and b :: int and s :: "string option"
    and scale :: "int \<Rightarrow> int"
  defines "r \<equiv> compact_progressive ct scale msgs b s"
  shows "messages r \<noteq> [] \<or> 0 \<le> scale b \<longrightarrow> sum_tokens ct (messages r) \<le> scale b"
proof -
  obtain k c x where
    w: "keep_recent ct (scale b) (int (length msgs)) 0 (rev msgs) ([], 0, int (length msgs)) = (k, c, x)"
    by (metis prod_cases3)
  then have m: "messages r = k"
    by (simp add: r_def compact_progressive_def Let_def)
  have "k \<noteq> [] \<longrightarrow> sum_tokens ct k \<le> scale b"
    using keep_recent_inv [OF w] by (auto simp: sum_tokens_Nil)
  with m show ?thesis
    by (auto simp: sum_tokens_Nil)
qed

text \<open>
  What the loop of \<open>_compact_progressive\<close> keeps is a run of the most recent turns, and
  \<open>cutoff_index\<close> is the number of turns before that run.
\<close>

lemma keep_recent_suffix:
  "keep_recent ct a n i ms (k, c, x) = (k', c', x') \<Longrightarrow> i = int (length k) \<Longrightarrow>
   x = n - int (length k) \<Longrightarrow>
   (\<exists>j \<le> length ms. k' = rev (take j ms) @ k) \<and> x' = n - int (length k')"
proof (induction ms arbitrary: k c x i)
  case Nil
  then show ?case by auto
next
  case (Cons m ms)
  let ?t = "int (ct (msg_get m ''content'' []))"
  show ?case
  proof (cases "c + ?t \<le> a")
    case True
    with Cons.prems(1)
    have "keep_recent ct a n (i + 1) ms (m # k, c + ?t, n - i - 1) = (k', c', x')"
      by simp
    from Cons.IH [OF this] Cons.prems(2)
    obtain j where j: "j \<le> length ms" "k' = rev (take j ms) @ m # k"
      and x': "x' = n - int (length k')"
      by auto
    have "Suc j \<le> length (m # ms)" "k' = rev (take (Suc j) (m # ms)) @ k"
      using j by simp_all
    with x' show ?thesis by blast
  next
    case False
    with Cons.prems have "k' = rev (take 0 (m # ms)) @ k" "x' = n - int (length k')"
      by auto
    then show ?thesis by blast
  qed
qed

lemma progressive_summary:
  fixes ct :: "string \<Rightarrow> nat" and msgs :: "message list" and b :: int and s :: "string option"
    and scale :: "int \<Rightarrow> int"
  defines "r \<equiv> compact_progressive ct scale msgs b s"
  defines "older \<equiv> take (length msgs - length (messages r)) msgs"
  shows "msgs = older @ messages r \<and>
    summary r = (if older = [] then None else Some (prepare_for_summarization older s))"
proof -
  obtain k c x where
    w: "keep_recent ct (scale b) (int (length msgs)) 0 (rev msgs) ([], 0, int (length msgs)) = (k, c, x)"
    by (metis prod_cases3)
  from keep_recent_suffix [OF w]
  obtain j where j: "j \<le> length msgs" "k = rev (take j (rev msgs))"
    and x: "x = int (length msgs) - int (length k)"
    by auto
  have k: "k = drop (length msgs - j) msgs"
    unfolding j(2) by (simp add: rev_take)
  have lk: "length k = j"
    using j(1) by (simp add: k)
  have kd: "k = drop (length msgs - length k) msgs"
    using k lk by simp
  have nx: "nat x = length msgs - length k"
    using x by simp
  have m: "messages r = k"
    by (simp add: r_def compact_progressive_def Let_def w)
  have o: "older = take (nat x) msgs"
    by (simp add: older_def m nx)
  have 1: "msgs = older @ messages r"
  proof -
    have "msgs = take (length msgs - length k) msgs @ drop (length msgs - length k) msgs"
      by simp
    then show ?thesis
      unfolding older_def m using kd by simp
  qed
  have 2: "summary r = (if older = [] then None else Some (prepare_for_summarization older s))"
    unfolding o by (simp add: r_def compact_progressive_def Let_def w)
  show ?thesis
    using 1 2 by blast
qed

text \<open>
  C1 (as amended). Under the truncate strategy, and under the adaptive strategy when the
  floor is not triggered, the summary is returned unchanged and the kept turns together
  with it fit the budget as soon as one turn is kept or the summary alone fits. Under the
  adaptive strategy with the floor triggered the kept turns are the last
  \<open>min_messages_to_keep\<close> turns, all of them when there are fewer. Under the progressive
  strategy the kept turns are the most recent turns and fit the recent budget
  \<open>int(0.7 B)\<close>, and the returned summary is what \<open>_prepare_for_summarization\<close> makes of
  the older turns and the existing summary: the text to summarise, not a summary of it,
  and \<open>None\<close> when every turn is kept.
\<close>

theorem compact_budget:
  fixes ct :: "string \<Rightarrow> nat" and msgs :: "message list" and b :: int and s :: "string option"
    and scale :: "int \<Rightarrow> int" and cfg :: CompactionConfig
  defines "r \<equiv> compact ct scale cfg msgs b s"
  shows
  "(strategy cfg = TRUNCATE \<longrightarrow>
      summary r = s \<and>
      (messages r \<noteq> [] \<or> summary_tokens ct s \<le> b \<longrightarrow>
         sum_tokens ct (messages r) + summary_tokens ct (summary r) \<le> b)) \<and>
   (strategy cfg = ADAPTIVE \<longrightarrow>
      summary r = s \<and>
      (floor_triggered ct cfg msgs b s \<longrightarrow>
         messages r = py_slice_from msgs (- min_messages_to_keep cfg) \<and>
         length (messages r) = min (nat (min_messages_to_keep cfg)) (length msgs)) \<and>
      (\<not> floor_triggered ct cfg msgs b s \<longrightarrow>
         (messages r \<noteq> [] \<or> summary_tokens ct s \<le> b \<longrightarrow>
            sum_tokens ct (messages r) + summary_tokens ct (summary r) \<le> b))) \<and>
   (strategy cfg = PROGRESSIVE \<longrightarrow>
      (messages r \<noteq> [] \<or> 0 \<le> scale b \<longrightarrow> sum_tokens ct (messages r) \<le> scale b) \<and>
      msgs = take (length msgs - length (messages r)) msgs @ messages r \<and>
      summary r =
        (if take (length msgs - length (messages r)) msgs = [] then None
         else Some (prepare_for_summarization
                      (take (length msgs - length (messages r)) msgs) s)))"
proof (cases "strategy cfg")
  case ADAPTIVE
  then have r: "r = compact_adaptive ct cfg msgs b s"
    by (simp add: r_def compact_def)
  have "strategy cfg \<noteq> TRUNCATE" "strategy cfg \<noteq> PROGRESSIVE"
    using ADAPTIVE by simp_all
  then show ?thesis
    unfolding r using adaptive_fits [of ct cfg msgs b s] by blast
next
  case PROGRESSIVE
  then have r: "r = compact_progressive ct scale msgs b s"
    by (simp add: r_def compact_def)
  have "strategy cfg \<noteq> TRUNCATE" "strategy cfg \<noteq> ADAPTIVE"
    using PROGRESSIVE by simp_all
  then show ?thesis
    unfolding r
    using progressive_fits [of ct scale msgs b s] progressive_summary [of msgs ct scale b s]
    by blast
next
  case TRUNCATE
  then have r: "r = compact_truncate ct msgs b s"
    by (simp add: r_def compact_def)
  have "strategy cfg \<noteq> ADAPTIVE" "strategy cfg \<noteq> PROGRESSIVE"
    using TRUNCATE by simp_all
  then show ?thesis
    unfolding r using truncate_fits [of ct msgs b s] by blast
qed

theorem compact_budget_witness:
  fixes ms :: "message list" and c1 :: CompactionConfig
  defines "ms \<equiv> [turn_msg ''user'' ''abcd'', turn_msg ''assistant'' ''ef'']"
    and "c1 \<equiv> (default_config ADAPTIVE)\<lparr>min_messages_to_keep := 1\<rparr>"
  shows
  "summary_tokens chars_as_tokens (Some ''xyz'') \<le> 5 \<and>
   sum_tokens chars_as_tokens
     (messages (compact chars_as_tokens scale_small (default_config TRUNCATE) ms 5 (Some ''xyz'')))
   + summary_tokens chars_as_tokens
       (summary (compact chars_as_tokens scale_small (default_config TRUNCATE) ms 5 (Some ''xyz'')))
   \<le> 5 \<and>
   floor_triggered chars_as_tokens (default_config ADAPTIVE) ms 5 (Some ''xyz'') \<and>
   length (messages (compact chars_as_tokens scale_small (default_config ADAPTIVE) ms 5 (Some ''xyz'')))
   = 2 \<and>
   \<not> floor_triggered chars_as_tokens c1 ms 5 (Some ''xyz'') \<and>
   sum_tokens chars_as_tokens (messages (compact chars_as_tokens scale_small c1 ms 5 (Some ''xyz'')))
   + summary_tokens chars_as_tokens
       (summary (compact chars_as_tokens scale_small c1 ms 5 (Some ''xyz'')))
   \<le> 5 \<and>
   0 \<le> scale_small 10 \<and>
   sum_tokens chars_as_tokens
     (messages (compact chars_as_tokens scale_small (default_config PROGRESSIVE) ms 10 None))
   \<le> scale_small 10 \<and>
   messages (compact chars_as_tokens scale_small (default_config PROGRESSIVE) ms 5 None)
   = [turn_msg ''assistant'' ''ef''] \<and>
   summary (compact chars_as_tokens scale_small (default_config PROGRESSIVE) ms 5 None)
   = Some ''Messages to incorporate:\<newline>\<newline>[user]: abcd''"
proof -
  have h1: "summary_tokens chars_as_tokens (Some ''xyz'') \<le> 5"
    by (simp add: summary_tokens_def chars_as_tokens_def)
  have h2: "floor_triggered chars_as_tokens (default_config ADAPTIVE) ms 5 (Some ''xyz'')"
    by (simp add: floor_triggered_def default_config_def summary_tokens_def chars_as_tokens_def
        ms_def turn_msg_def msg_get_def)
  have h3: "\<not> floor_triggered chars_as_tokens c1 ms 5 (Some ''xyz'')"
    by (simp add: floor_triggered_def default_config_def summary_tokens_def chars_as_tokens_def
        ms_def c1_def turn_msg_def msg_get_def)
  have h4: "0 \<le> scale_small 10"
    by (simp add: scale_small_def)
  have s1: "strategy (default_config TRUNCATE) = TRUNCATE"
    "strategy (default_config ADAPTIVE) = ADAPTIVE" "strategy c1 = ADAPTIVE"
    "strategy (default_config PROGRESSIVE) = PROGRESSIVE"
    "min_messages_to_keep (default_config ADAPTIVE) = 4"
    by (simp_all add: default_config_def c1_def)
  have l: "length ms = 2"
    by (simp add: ms_def)
  have c1: "sum_tokens chars_as_tokens
     (messages (compact chars_as_tokens scale_small (default_config TRUNCATE) ms 5 (Some ''xyz'')))
   + summary_tokens chars_as_tokens
       (summary (compact chars_as_tokens scale_small (default_config TRUNCATE) ms 5 (Some ''xyz'')))
   \<le> 5"
    using h1 s1(1)
      compact_budget [where ct = chars_as_tokens and scale = scale_small
        and cfg = "default_config TRUNCATE" and b = 5 and s = "Some ''xyz''" and msgs = ms]
    by blast
  have "length (messages (compact chars_as_tokens scale_small (default_config ADAPTIVE) ms 5
          (Some ''xyz'')))
        = min (nat (min_messages_to_keep (default_config ADAPTIVE))) (length ms)"
    using h2 s1(2)
      compact_budget [where ct = chars_as_tokens and scale = scale_small
        and cfg = "default_config ADAPTIVE" and b = 5 and s = "Some ''xyz''" and msgs = ms]
    by blast
  then have c2: "length (messages (compact chars_as_tokens scale_small (default_config ADAPTIVE)
      ms 5 (Some ''xyz''))) = 2"
    by (simp add: s1(5) l)
  have c3: "sum_tokens chars_as_tokens
      (messages (compact chars_as_tokens scale_small c1 ms 5 (Some ''xyz'')))
   + summary_tokens chars_as_tokens
       (summary (compact chars_as_tokens scale_small c1 ms 5 (Some ''xyz'')))
   \<le> 5"
    using h1 h3 s1(3)
      compact_budget [where ct = chars_as_tokens and scale = scale_small
        and cfg = c1 and b = 5 and s = "Some ''xyz''" and msgs = ms]
    by blast
  have c4: "sum_tokens chars_as_tokens
     (messages (compact chars_as_tokens scale_small (default_config PROGRESSIVE) ms 10 None))
   \<le> scale_small 10"
    using h4 s1(4)
      compact_budget [where ct = chars_as_tokens and scale = scale_small
        and cfg = "default_config PROGRESSIVE" and b = 10 and s = None and msgs = ms]
    by blast
  let ?p = "compact chars_as_tokens scale_small (default_config PROGRESSIVE) ms 5 None"
  have lp: "length (messages ?p) = 1"
    by (simp add: compact_def compact_progressive_def default_config_def chars_as_tokens_def
        scale_small_def ms_def turn_msg_def msg_get_def Let_def)
  have older: "take (length ms - 1) ms = [turn_msg ''user'' ''abcd'']"
    by (simp add: ms_def)
  note p = compact_budget [where ct = chars_as_tokens and scale = scale_small
        and cfg = "default_config PROGRESSIVE" and b = 5 and s = None and msgs = ms]
  have "ms = [turn_msg ''user'' ''abcd''] @ messages ?p"
    using p s1(4) unfolding lp older by blast
  then have c5: "messages ?p = [turn_msg ''assistant'' ''ef'']"
    by (simp add: ms_def)
  have "summary ?p = Some (prepare_for_summarization [turn_msg ''user'' ''abcd''] None)"
    using p s1(4) unfolding lp older by simp
  then have c6: "summary ?p = Some ''Messages to incorporate:\<newline>\<newline>[user]: abcd''"
    by (simp add: prepare_for_summarization_def turn_msg_def msg_get_def)
  show ?thesis
    using h1 h2 h3 h4 c1 c2 c3 c4 c5 c6 by blast
qed

theorem compact_floor_counterexample:
  "\<not> spec_budget_property chars_as_tokens scale_small (default_config ADAPTIVE)
      [turn_msg ''user'' ''abcd'', turn_msg ''assistant'' ''efgh''] 3 None \<and>
   \<not> spec_budget_property chars_as_tokens scale_small (default_config TRUNCATE)
      [turn_msg ''user'' ''abcd''] 2 (Some ''xyz'') \<and>
   \<not> spec_budget_property chars_as_tokens scale_small (default_config PROGRESSIVE)
      [turn_msg ''user'' ''abcdefghijkl''] 10 None"
proof -
  have "\<not> spec_budget_property chars_as_tokens scale_small (default_config ADAPTIVE)
      [turn_msg ''user'' ''abcd'', turn_msg ''assistant'' ''efgh''] 3 None"
    by (simp add: spec_budget_property_def compact_def compact_adaptive_def default_config_def
        floor_triggered_def summary_tokens_def chars_as_tokens_def turn_msg_def msg_get_def
        sum_tokens_def py_slice_from_def)
  moreover have "\<not> spec_budget_property chars_as_tokens scale_small (default_config TRUNCATE)
      [turn_msg ''user'' ''abcd''] 2 (Some ''xyz'')"
    by (simp add: spec_budget_property_def compact_def compact_truncate_def default_config_def
        summary_tokens_def chars_as_tokens_def turn_msg_def msg_get_def sum_tokens_def)
  moreover have "\<not> spec_budget_property chars_as_tokens scale_small (default_config PROGRESSIVE)
      [turn_msg ''user'' ''abcdefghijkl''] 10 None"
    by (simp add: spec_budget_property_def compact_def compact_progressive_def
        default_config_def summary_tokens_def chars_as_tokens_def turn_msg_def msg_get_def
        sum_tokens_def scale_small_def prepare_for_summarization_def)
  ultimately show ?thesis
    by blast
qed

section \<open>Splitting and joining\<close>

lemma py_join_Cons: "py_join sep (x # xs) = (if xs = [] then x else x @ sep @ py_join sep xs)"
  by (cases xs) simp_all

lemma split_from_not_Nil: "split_from sep acc s \<noteq> []"
  by (induction sep acc s rule: split_from.induct) auto

lemma py_join_split_from: "sep \<noteq> [] \<Longrightarrow> py_join sep (split_from sep acc s) = rev acc @ s"
proof (induction sep acc s rule: split_from.induct)
  case (1 sep acc)
  then show ?case by simp
next
  case (2 sep acc c cs)
  show ?case
  proof (cases "prefix sep (c # cs)")
    case True
    then obtain r where r: "c # cs = sep @ r"
      by (auto simp: prefix_def)
    with \<open>sep \<noteq> []\<close> have d: "drop (length sep - 1) cs = r"
      by (cases sep) auto
    have "py_join sep (split_from sep [] r) = r"
      using "2.IH"(1) True "2.prems" d by simp
    moreover have "split_from sep acc (c # cs) = rev acc # split_from sep [] r"
      using True "2.prems" d by simp
    ultimately show ?thesis
      by (simp add: py_join_Cons split_from_not_Nil r)
  next
    case False
    then show ?thesis
      using "2.IH"(2) "2.prems" by simp
  qed
qed

lemma py_join_py_split: "sep \<noteq> [] \<Longrightarrow> py_join sep (py_split sep s) = s"
  by (simp add: py_split_def py_join_split_from)

lemma join_splitlines: "py_join newline (splitlines_nl s) = s"
  by (simp add: splitlines_nl_def py_join_py_split newline_def)

section \<open>Hybrid search: scores, threshold, order\<close>























lemma py_slice_to_take:
  "py_slice_to xs i = take (if 0 \<le> i then nat i else length xs - nat (- i)) xs"
proof (cases "0 \<le> i")
  case True
  then show ?thesis by (simp add: py_slice_to_def)
next
  case False
  then have "nat (max 0 (int (length xs) + i)) = length xs - nat (- i)"
    by (simp add: max_def) arith
  with False show ?thesis by (simp add: py_slice_to_def)
qed

lemma length_py_slice_to:
  "length (py_slice_to xs i)
   = (if 0 \<le> i then min (nat i) (length xs) else length xs - nat (- i))"
proof (cases "0 \<le> i")
  case True
  then show ?thesis by (simp add: py_slice_to_take min_def)
next
  case False
  then show ?thesis by (simp add: py_slice_to_take)
qed








section \<open>Gateway manager: restarting a gateway\<close>

lemma stop_gateway_restarting:
  "gateways m n = Some info \<Longrightarrow> status info = RESTARTING \<Longrightarrow> stop_gateway ops now m n = (True, m)"
  by (simp add: stop_gateway_def)

lemma restart_gateway_eq_start:
  assumes "gateways m n = Some info"
  shows "restart_gateway ops now m n
         = start_gateway ops now (set_info m n (info\<lparr>status := RESTARTING\<rparr>)) n"
proof -
  have "stop_gateway ops now (set_info m n (info\<lparr>status := RESTARTING\<rparr>)) n
        = (True, set_info m n (info\<lparr>status := RESTARTING\<rparr>))"
    by (rule stop_gateway_restarting [where info = "info\<lparr>status := RESTARTING\<rparr>"])
       (simp_all add: set_info_def)
  then show ?thesis
    using assms by (simp add: restart_gateway_def Let_def)
qed

lemma start_gateway_restart_count:
  assumes "gateways m n = Some info"
  shows "\<exists>info'. gateways (snd (start_gateway ops now m n)) n = Some info' \<and>
           restart_count info' = restart_count info"
  using assms
  by (auto simp: start_gateway_def set_info_def Let_def split: sum.splits)

text \<open>
  The automatic restart after a failed run is where a restart is counted, as long as
  fewer than \<open>max_restarts\<close> have been.
\<close>

lemma run_gateway_failed_counts:
  assumes "gateways m n = Some info" "auto_restart m" "restart_count info < max_restarts m"
  shows "\<exists>info'. gateways (run_gateway_failed ops now m n e) n = Some info' \<and>
           restart_count info' = restart_count info + 1"
proof -
  let ?i = "info\<lparr>status := ERROR, error := Some e, restart_count := restart_count info + 1\<rparr>"
  have "run_gateway_failed ops now m n e = snd (start_gateway ops now (set_info m n ?i) n)"
    using assms by (simp add: run_gateway_failed_def Let_def)
  moreover have "gateways (set_info m n ?i) n = Some ?i"
    by (simp add: set_info_def)
  ultimately show ?thesis
    using start_gateway_restart_count [of "set_info m n ?i" n ?i ops now] by simp
qed

text \<open>
  Whatever \<open>stop()\<close> of the gateway does, the restart is the same: it is never called.
\<close>

lemma restart_gateway_never_calls_stop:
  "restart_gateway (ops\<lparr>g_stop := f\<rparr>) now m n = restart_gateway ops now m n"
proof (cases "gateways m n")
  case None
  then show ?thesis
    by (simp add: restart_gateway_def)
next
  case (Some info)
  have "start_gateway (ops\<lparr>g_stop := f\<rparr>) now m' n = start_gateway ops now m' n" for m'
    by (simp add: start_gateway_def Let_def split: option.splits sum.splits)
  then show ?thesis
    by (simp add: restart_gateway_eq_start [OF Some])
qed

text \<open>
  C8. The running CLI gateway, restart count 0, restarted at 2024-06-01T12:00. The call
  sets the status to \<open>restarting\<close> and then calls \<open>stop_gateway\<close>, whose guard returns at
  once for every status other than \<open>running\<close> and \<open>error\<close>: \<open>gateway.stop()\<close> is not called,
  the run task is not cancelled and no stop time is recorded. \<open>start_gateway\<close> then starts
  the gateway that was never stopped. What the manager holds after the call is what it
  held before with the new start time: no stop time, and the restart count still 0.
  Called on the same manager, \<open>stop_gateway\<close> does stop the gateway and records the time.
\<close>

theorem restart_gateway_skips_stop:
  "restart_gateway cli_ops ''2024-06-01T12:00:00+00:00'' cli_manager ''cli''
   = (True, cli_manager\<lparr>gateways :=
        [''cli'' \<mapsto> running_cli\<lparr>started_at := Some ''2024-06-01T12:00:00+00:00''\<rparr>]\<rparr>) \<and>
   stopped_at (running_cli\<lparr>started_at := Some ''2024-06-01T12:00:00+00:00''\<rparr>) = None \<and>
   restart_count (running_cli\<lparr>started_at := Some ''2024-06-01T12:00:00+00:00''\<rparr>) = 0 \<and>
   stop_gateway cli_ops ''2024-06-01T12:00:00+00:00'' cli_manager ''cli''
   = (True, cli_manager\<lparr>gateways :=
        [''cli'' \<mapsto> running_cli\<lparr>
           gateway := \<lparr>cli_status = P_STOPPED, cli_running = False, cli_stop_event = True\<rparr>,
           status := STOPPED, stopped_at := Some ''2024-06-01T12:00:00+00:00'',
           task := None\<rparr>]\<rparr>)"
  by (simp add: restart_gateway_def stop_gateway_def start_gateway_def
      set_info_def cli_manager_def running_cli_def cli_ops_def)

section \<open>Memory index: a text of one chunk is read back\<close>

lemma chunk_loop_progress:
  "chunk_loop env idx path source i ls (cs, cur, t, s) = (cs', cur', t', s') \<Longrightarrow>
   (cs' = cs \<and> cur' = cur @ ls) \<or> (length cs < length cs' \<and> cur' \<noteq> [])"
proof (induction ls arbitrary: i cs cur t s)
  case Nil
  then show ?case by simp
next
  case (Cons line rest)
  let ?lt = "int (count_tokens env line)"
  show ?case
  proof (cases "t + ?lt > chunk_size idx \<and> cur \<noteq> []")
    case True
    obtain ols otoks line' where
      w: "overlap_walk (count_tokens env) (chunk_overlap idx) (rev cur) ([], 0, line)
          = (ols, otoks, line')"
      by (metis prod_cases3)
    have "chunk_loop env idx path source (i + 1) rest
            (cs @ [make_chunk env path source s (i - 1) cur], ols @ [line'], otoks + ?lt,
             i - int (length ols)) = (cs', cur', t', s')"
      using Cons.prems True w by (simp add: Let_def)
    from Cons.IH [OF this] show ?thesis by auto
  next
    case False
    then have "chunk_loop env idx path source (i + 1) rest (cs, cur @ [line], t + ?lt, s)
               = (cs', cur', t', s')"
      using Cons.prems by (auto simp: Let_def)
    from Cons.IH [OF this] show ?thesis by auto
  qed
qed

lemma splitlines_not_Nil: "splitlines_nl s \<noteq> []"
  by (simp add: splitlines_nl_def py_split_def split_from_not_Nil)

lemma single_chunk_is_whole_text:
  assumes "length (chunk_text_fn env idx text path source) = 1"
  shows "\<exists>c. chunk_text_fn env idx text path source = [c] \<and> chunk_text c = text \<and>
             chunk_path c = path"
proof -
  let ?lines = "splitlines_nl text"
  obtain cs cur t s where
    l: "chunk_loop env idx path source 1 ?lines ([], [], 0, 1) = (cs, cur, t, s)"
    by (metis prod_cases4)
  from chunk_loop_progress [OF l]
  consider "cs = []" "cur = ?lines" | "0 < length cs" "cur \<noteq> []"
    by auto
  then show ?thesis
  proof cases
    case 1
    then have "chunk_text_fn env idx text path source
               = [make_chunk env path source s (int (length ?lines)) ?lines]"
      using l splitlines_not_Nil [of "text"] by (simp add: chunk_text_fn_def Let_def)
    then show ?thesis
      by (simp add: make_chunk_def Let_def join_splitlines)
  next
    case 2
    then have "length (chunk_text_fn env idx text path source) = length cs + 1"
      using l by (simp add: chunk_text_fn_def Let_def)
    with 2 assms show ?thesis by simp
  qed
qed

text \<open>
  C10. When \<open>_chunk_text\<close> makes one chunk of the text, the provider returns an embedding
  for it, and no file exists at the path, \<open>get(path)\<close> after \<open>index_text\<close> is the text.
\<close>

theorem get_after_index_text:
  assumes "length (chunk_text_fn env idx text path source) = 1"
    and "embed_batch env (map chunk_text (chunk_text_fn env idx text path source))
         = Some embeddings"
    and "embeddings \<noteq> []"
    and "fs path = None"
  shows "get_content fs (snd (index_text env idx db text path source)) path = Some text"
proof -
  obtain c where c: "chunk_text_fn env idx text path source = [c]"
    and t: "chunk_text c = text" and p: "chunk_path c = path"
    using single_chunk_is_whole_text [OF assms(1)] by blast
  obtain e es where e: "embeddings = e # es"
    using assms(3) by (cases embeddings) auto
  let ?db1 = "delete_chunks_where_path db path"
  let ?row = "\<lparr>row_id = chunk_seq ?db1 + 1, row_path = path, row_source = chunk_source c,
                row_start_line = chunk_start_line c, row_end_line = chunk_end_line c,
                row_hash = chunk_hash c, row_text = text,
                row_embedding = Some e, row_updated_at = now_iso env\<rparr>"
  have "chunks (snd (index_text env idx db text path source)) = chunks ?db1 @ [?row]"
    using assms(2) c e t p
    by (simp add: index_text_def Let_def insert_chunk_def upsert_file_def)
  moreover have "filter (\<lambda>r. row_path r = path) (chunks ?db1) = []"
    by (simp add: delete_chunks_where_path_def filter_empty_conv)
  ultimately show ?thesis
    using assms(4) by (simp add: get_content_def)
qed

theorem get_after_index_text_witness:
  "length (chunk_text_fn sample_env (sample_index False) ''ab\<newline>cd'' ''notes/a.md'' SRC_MEMORY) = 1 \<and>
   get_content Map.empty
     (snd (index_text sample_env (sample_index False) empty_db ''ab\<newline>cd'' ''notes/a.md'' SRC_MEMORY))
     ''notes/a.md'' = Some ''ab\<newline>cd''"
proof -
  have c: "chunk_text_fn sample_env (sample_index False) ''ab\<newline>cd'' ''notes/a.md'' SRC_MEMORY
      = [\<lparr>chunk_path = ''notes/a.md'', chunk_source = SRC_MEMORY, chunk_start_line = 1,
          chunk_end_line = 2, chunk_text = ''ab\<newline>cd'', chunk_hash = ''ab\<newline>cd''\<rparr>]"
    by (simp add: chunk_text_fn_def splitlines_nl_def py_split_def newline_def sample_env_def
        sample_index_def make_chunk_def Let_def)
  have l: "length (chunk_text_fn sample_env (sample_index False) ''ab\<newline>cd'' ''notes/a.md'' SRC_MEMORY) = 1"
    unfolding c by simp
  have e: "embed_batch sample_env (map chunk_text (chunk_text_fn sample_env (sample_index False)
      ''ab\<newline>cd'' ''notes/a.md'' SRC_MEMORY)) = Some [[5, 1]]"
    unfolding c by (simp add: sample_env_def)
  show ?thesis
    using l get_after_index_text [OF l e, of Map.empty empty_db] by simp
qed

section \<open>Memory index: the full-text table and the vector table\<close>

lemma fold_fts_delete:
  "fold fts_delete gone fts = filter (\<lambda>(rowid, t). rowid \<notin> row_id ` set gone) fts"
proof (induction gone arbitrary: fts)
  case Nil
  then show ?case by simp
next
  case (Cons g gone)
  have "fold fts_delete (g # gone) fts = fold fts_delete gone (fts_delete g fts)"
    by simp
  also have "\<dots> = filter (\<lambda>(rowid, t). rowid \<notin> row_id ` set gone) (fts_delete g fts)"
    by (rule Cons.IH)
  also have "\<dots> = filter (\<lambda>(rowid, t). rowid \<notin> row_id ` set (g # gone)) fts"
    by (auto simp: fts_delete_def intro!: filter_cong)
  finally show ?case .
qed

lemma fts_mirrors_delete:
  assumes "fts_mirrors_chunks db"
  shows "fts_mirrors_chunks (delete_chunks_where_path db path)"
proof -
  let ?gone = "filter (\<lambda>r. row_path r = path) (chunks db)"
  have d: "distinct (map row_id (chunks db))"
    and b: "\<forall>r \<in> set (chunks db). row_id r \<le> chunk_seq db"
    and m: "map fst (chunks_fts db) = map row_id (chunks db)"
    using assms by (simp_all add: fts_mirrors_chunks_def)
  have inj: "inj_on row_id (set (chunks db))"
    using d by (simp add: distinct_map)
  have k: "row_id r \<notin> row_id ` set ?gone \<longleftrightarrow> row_path r \<noteq> path" if "r \<in> set (chunks db)" for r
    using that inj by (auto simp: inj_on_def)
  have "map fst (filter (\<lambda>(rowid, t). rowid \<notin> row_id ` set ?gone) (chunks_fts db))
        = filter (\<lambda>i. i \<notin> row_id ` set ?gone) (map fst (chunks_fts db))"
    by (simp add: filter_map comp_def case_prod_unfold)
  also have "\<dots> = map row_id (filter (\<lambda>r. row_id r \<notin> row_id ` set ?gone) (chunks db))"
    by (simp add: m filter_map comp_def)
  also have "\<dots> = map row_id (filter (\<lambda>r. row_path r \<noteq> path) (chunks db))"
    using k by (simp cong: filter_cong)
  finally have "map fst (chunks_fts (delete_chunks_where_path db path))
      = map row_id (chunks (delete_chunks_where_path db path))"
    by (simp add: delete_chunks_where_path_def fold_fts_delete)
  moreover have "distinct (map row_id (chunks (delete_chunks_where_path db path)))"
    using d by (simp add: delete_chunks_where_path_def distinct_map_filter)
  moreover have "\<forall>r \<in> set (chunks (delete_chunks_where_path db path)).
      row_id r \<le> chunk_seq (delete_chunks_where_path db path)"
    using b by (simp add: delete_chunks_where_path_def)
  ultimately show ?thesis
    by (simp add: fts_mirrors_chunks_def)
qed

lemma fts_mirrors_insert:
  assumes "fts_mirrors_chunks db"
  shows "fts_mirrors_chunks (snd (insert_chunk db now chunk embedding))"
proof -
  have "\<forall>r \<in> set (chunks db). row_id r \<noteq> chunk_seq db + 1"
    using assms by (fastforce simp: fts_mirrors_chunks_def)
  with assms show ?thesis
    by (auto simp: fts_mirrors_chunks_def insert_chunk_def Let_def)
qed

lemma fts_mirrors_vec:
  "fts_mirrors_chunks (insert_vec env db i e) = fts_mirrors_chunks db"
  "fts_mirrors_chunks (delete_vec_where_path db path) = fts_mirrors_chunks db"
  "fts_mirrors_chunks (upsert_file db path row) = fts_mirrors_chunks db"
  by (simp_all add: fts_mirrors_chunks_def insert_vec_def delete_vec_where_path_def upsert_file_def)

lemma fts_mirrors_insert_chunks_text:
  "fts_mirrors_chunks db \<Longrightarrow> fts_mirrors_chunks (insert_chunks_text db now ces)"
proof (induction ces arbitrary: db)
  case Nil
  then show ?case by simp
next
  case (Cons ce ces)
  obtain c e where "ce = (c, e)" by (cases ce)
  with Cons show ?case
    by (simp add: fts_mirrors_insert)
qed

lemma fts_mirrors_insert_chunks_file:
  "fts_mirrors_chunks db \<Longrightarrow> fts_mirrors_chunks (insert_chunks_file env idx db now ces)"
proof (induction ces arbitrary: db)
  case Nil
  then show ?case by simp
next
  case (Cons ce ces)
  obtain c e where ce: "ce = (c, e)" by (cases ce)
  obtain i db1 where i: "insert_chunk db now c e = (i, db1)" by (cases "insert_chunk db now c e")
  then have "fts_mirrors_chunks db1"
    using fts_mirrors_insert [OF Cons.prems, of now c e] by simp
  then have "fts_mirrors_chunks (if use_vec idx \<and> i \<noteq> 0 then insert_vec env db1 i e else db1)"
    by (simp add: fts_mirrors_vec)
  from Cons.IH [OF this] show ?case
    by (simp add: ce i)
qed

lemma fts_mirrors_index_text:
  "fts_mirrors_chunks db \<Longrightarrow> fts_mirrors_chunks (snd (index_text env idx db content path source))"
  by (auto simp: index_text_def Let_def fts_mirrors_delete fts_mirrors_vec
      fts_mirrors_insert_chunks_text split: option.splits)

lemma fts_mirrors_index_file:
  "fts_mirrors_chunks db \<Longrightarrow> fts_mirrors_chunks (snd (index_file env idx fs db path source))"
  by (auto simp: index_file_def Let_def fts_mirrors_delete fts_mirrors_vec
      fts_mirrors_insert_chunks_file split: option.splits)

lemma fts_mirrors_run_index_ops:
  "fts_mirrors_chunks db \<Longrightarrow> fts_mirrors_chunks (run_index_ops env idx ops db)"
proof (induction ops arbitrary: db)
  case Nil
  then show ?case by simp
next
  case (Cons op ops)
  then show ?case
    by (cases op) (simp_all add: fts_mirrors_index_text fts_mirrors_index_file)
qed

text \<open>
  The half of C3 that the triggers give: after any sequence of \<open>index_file\<close> and
  \<open>index_text\<close> on an empty index, \<open>chunks_fts\<close> has one row for each row of \<open>chunks\<close>.
\<close>

lemma fts_in_sync_after_indexing: "fts_in_sync (run_index_ops env idx ops empty_db)"
proof -
  have "fts_mirrors_chunks empty_db"
    by (simp add: fts_mirrors_chunks_def empty_db_def)
  then have "fts_mirrors_chunks (run_index_ops env idx ops empty_db)"
    by (rule fts_mirrors_run_index_ops)
  then show ?thesis
    by (simp add: fts_mirrors_chunks_def fts_in_sync_def)
qed

text \<open>
  C3, the vector table. With the vector table in use, \<open>index_text\<close> stores a chunk with
  its embedding and no row of \<open>chunks_vec\<close>; and \<open>index_file\<close> on a changed file deletes
  the old chunk first and then finds no id to delete from \<open>chunks_vec\<close>, whose old row
  stays.
\<close>

theorem index_vec_out_of_sync:
  "chunks_vec (run_index_ops sample_env (sample_index True)
      [IndexText ''hello'' ''notes/a.md'' SRC_MEMORY] empty_db) = [] \<and>
   map row_id (filter (\<lambda>r. row_embedding r \<noteq> None)
     (chunks (run_index_ops sample_env (sample_index True)
        [IndexText ''hello'' ''notes/a.md'' SRC_MEMORY] empty_db))) = [1] \<and>
   use_vec (sample_index True) \<and>
   \<not> vec_in_sync
      (run_index_ops sample_env (sample_index True)
        [IndexText ''hello'' ''notes/a.md'' SRC_MEMORY] empty_db) \<and>
   map fst (chunks_vec (run_index_ops sample_env (sample_index True)
      [IndexFile (file_with ''b.md'' ''one'') ''b.md'' SRC_MEMORY,
       IndexFile (file_with ''b.md'' ''two'') ''b.md'' SRC_MEMORY] empty_db)) = [1, 2] \<and>
   map row_id (chunks (run_index_ops sample_env (sample_index True)
      [IndexFile (file_with ''b.md'' ''one'') ''b.md'' SRC_MEMORY,
       IndexFile (file_with ''b.md'' ''two'') ''b.md'' SRC_MEMORY] empty_db)) = [2] \<and>
   use_vec (sample_index True) \<and>
   \<not> vec_in_sync
      (run_index_ops sample_env (sample_index True)
        [IndexFile (file_with ''b.md'' ''one'') ''b.md'' SRC_MEMORY,
         IndexFile (file_with ''b.md'' ''two'') ''b.md'' SRC_MEMORY] empty_db)"
proof -
  have c: "chunk_text_fn sample_env (sample_index True) s p SRC_MEMORY
      = [\<lparr>chunk_path = p, chunk_source = SRC_MEMORY, chunk_start_line = 1,
          chunk_end_line = 1, chunk_text = s, chunk_hash = take 16 s\<rparr>]"
    if "s \<in> {''hello'', ''one'', ''two''}" for s p
    using that
    by (auto simp: chunk_text_fn_def splitlines_nl_def py_split_def newline_def sample_env_def
        sample_index_def make_chunk_def Let_def)
  have t: "run_index_ops sample_env (sample_index True)
      [IndexText ''hello'' ''notes/a.md'' SRC_MEMORY] empty_db
    = \<lparr>files = [''notes/a.md'' \<mapsto> \<lparr>file_hash = ''hello'', file_mtime = 0, file_size = 5,
          file_source = SRC_MEMORY, file_indexed_at = ''2024-06-01T12:00:00+00:00''\<rparr>],
       chunks = [\<lparr>row_id = 1, row_path = ''notes/a.md'', row_source = SRC_MEMORY,
          row_start_line = 1, row_end_line = 1, row_hash = ''hello'', row_text = ''hello'',
          row_embedding = Some [5, 1], row_updated_at = ''2024-06-01T12:00:00+00:00''\<rparr>],
       chunks_fts = [(1, ''hello'')], chunks_vec = [], chunk_seq = 1\<rparr>"
    by (simp add: index_text_def c Let_def)
       (simp add: sample_env_def empty_db_def delete_chunks_where_path_def insert_chunk_def
          upsert_file_def Let_def)
  have f1: "snd (index_file sample_env (sample_index True) (file_with ''b.md'' ''one'') empty_db
      ''b.md'' SRC_MEMORY)
    = \<lparr>files = [''b.md'' \<mapsto> \<lparr>file_hash = ''one'', file_mtime = 0, file_size = 3,
          file_source = SRC_MEMORY, file_indexed_at = ''2024-06-01T12:00:00+00:00''\<rparr>],
       chunks = [\<lparr>row_id = 1, row_path = ''b.md'', row_source = SRC_MEMORY,
          row_start_line = 1, row_end_line = 1, row_hash = ''one'', row_text = ''one'',
          row_embedding = Some [3, 1], row_updated_at = ''2024-06-01T12:00:00+00:00''\<rparr>],
       chunks_fts = [(1, ''one'')], chunks_vec = [(1, [3, 1])], chunk_seq = 1\<rparr>"
    by (simp add: index_file_def file_with_def c Let_def)
       (simp add: sample_env_def sample_index_def empty_db_def delete_chunks_where_path_def
          delete_vec_where_path_def insert_chunk_def insert_vec_def upsert_file_def Let_def)
  have f2: "run_index_ops sample_env (sample_index True)
      [IndexFile (file_with ''b.md'' ''one'') ''b.md'' SRC_MEMORY,
       IndexFile (file_with ''b.md'' ''two'') ''b.md'' SRC_MEMORY] empty_db
    = \<lparr>files = [''b.md'' \<mapsto> \<lparr>file_hash = ''two'', file_mtime = 0, file_size = 3,
          file_source = SRC_MEMORY, file_indexed_at = ''2024-06-01T12:00:00+00:00''\<rparr>],
       chunks = [\<lparr>row_id = 2, row_path = ''b.md'', row_source = SRC_MEMORY,
          row_start_line = 1, row_end_line = 1, row_hash = ''two'', row_text = ''two'',
          row_embedding = Some [3, 1], row_updated_at = ''2024-06-01T12:00:00+00:00''\<rparr>],
       chunks_fts = [(2, ''two'')], chunks_vec = [(1, [3, 1]), (2, [3, 1])], chunk_seq = 2\<rparr>"
    by (simp add: f1) (simp add: index_file_def file_with_def c Let_def,
        simp add: sample_env_def sample_index_def delete_chunks_where_path_def
          delete_vec_where_path_def insert_chunk_def insert_vec_def upsert_file_def Let_def
          fts_delete_def)
  show ?thesis
    unfolding t f2
    by (simp add: vec_in_sync_def sample_index_def)
qed

section \<open>Directive parser: characters and tokens\<close>

lemma ord_char_of: "n < 256 \<Longrightarrow> ord (char_of n) = n"
  by (simp add: ord_def)

lemma ord_less_256: "ord c < 256"
proof -
  have "(of_char c :: nat) mod 256 < 256"
    by simp
  then show ?thesis
    by (simp add: ord_def)
qed

lemma ord_lower_ascii:
  "ord (lower_ascii c) = (if 65 \<le> ord c \<and> ord c \<le> 90 then ord c + 32 else ord c)"
  by (simp add: lower_ascii_def ord_char_of)

lemma ord_slash: "ord CHR ''/'' = 47" and ord_blank: "ord CHR '' '' = 32"
  by (simp_all add: ord_def)

lemma slash_iff: "c = CHR ''/'' \<longleftrightarrow> ord c = 47"
  using ord_eq_iff [of c "CHR ''/''"] by (simp add: ord_slash)

lemma is_word_ascii:
  "ord c < 128 \<Longrightarrow> is_word c \<longleftrightarrow>
     (48 \<le> ord c \<and> ord c \<le> 57) \<or> (65 \<le> ord c \<and> ord c \<le> 90) \<or> (97 \<le> ord c \<and> ord c \<le> 122)
     \<or> ord c = 95"
  using ord_eq_iff [of c "CHR ''_''"] by (simp add: is_word_def isalnum_ascii ord_underscore)

lemma slash_not_word [simp]: "\<not> is_word CHR ''/''"
  by (simp add: is_word_ascii ord_slash)

lemma blank_not_word [simp]: "\<not> is_word CHR '' ''"
  by (simp add: is_word_ascii ord_blank)

lemma isspace_blank [simp]: "isspace CHR '' ''"
  by (simp add: isspace_def ord_blank)

lemma space_not_word: "isspace c \<Longrightarrow> \<not> is_word c"
proof (cases "ord c < 128")
  case True
  assume "isspace c"
  then have "(9 \<le> ord c \<and> ord c \<le> 13) \<or> (28 \<le> ord c \<and> ord c \<le> 32)"
    using True unfolding isspace_def Let_def by linarith
  then show ?thesis
    using True by (simp add: is_word_ascii) linarith
next
  case False
  assume "isspace c"
  then have "ord c = 133 \<or> ord c = 160"
    using False unfolding isspace_def Let_def by linarith
  moreover have "ord c \<noteq> 95"
    using False by simp
  then have "c \<noteq> CHR ''_''"
    using ord_underscore by auto
  ultimately show ?thesis
    unfolding is_word_def isalnum_def Let_def by auto
qed

lemma space_not_slash: "isspace c \<Longrightarrow> c \<noteq> CHR ''/''"
  unfolding isspace_def Let_def slash_iff by linarith

lemma lower_letter_word: "is_lower_letter (lower_ascii c) \<Longrightarrow> is_word c"
proof -
  assume "is_lower_letter (lower_ascii c)"
  then have "(65 \<le> ord c \<and> ord c \<le> 90) \<or> (97 \<le> ord c \<and> ord c \<le> 122)"
    unfolding is_lower_letter_def ord_lower_ascii by (simp split: if_splits)
  then show ?thesis
    by (subst is_word_ascii) auto
qed

lemma lower_ascii_lower_letter: "is_lower_letter p \<Longrightarrow> lower_ascii p = p"
  by (simp add: lower_ascii_def is_lower_letter_def)

lemma ci_match_slash: "ci_match CHR ''/'' c \<longleftrightarrow> c = CHR ''/''"
proof -
  have "ord (lower_ascii c) = 47 \<longleftrightarrow> ord c = 47"
    unfolding ord_lower_ascii by auto
  then have "lower_ascii c = CHR ''/'' \<longleftrightarrow> c = CHR ''/''"
    by (simp add: slash_iff)
  moreover have "lower_ascii CHR ''/'' = CHR ''/''"
    by (simp add: lower_ascii_def ord_slash)
  ultimately show ?thesis
    by (simp add: ci_match_def)
qed

lemma ci_match_lower_letter: "is_lower_letter p \<Longrightarrow> ci_match p c \<longleftrightarrow> lower_ascii c = p"
  by (simp add: ci_match_def lower_ascii_lower_letter)

lemma ci_prefix_letters:
  "list_all is_lower_letter w \<Longrightarrow>
   ci_prefix w s \<longleftrightarrow> length w \<le> length s \<and> map lower_ascii (take (length w) s) = w"
proof (induction w arbitrary: s)
  case Nil
  then show ?case by simp
next
  case (Cons p w)
  then show ?case
    by (cases s) (auto simp: ci_match_lower_letter)
qed

lemma letters_are_words:
  "list_all is_lower_letter w \<Longrightarrow> map lower_ascii m = w \<Longrightarrow> list_all is_word m"
  by (induction m arbitrary: w) (auto simp: lower_letter_word)

lemma takeWhile_word_split:
  assumes "list_all is_word m" "\<not> word_at r"
  shows "takeWhile is_word (m @ r) = m" "dropWhile is_word (m @ r) = r"
proof -
  have r: "takeWhile is_word r = []" "dropWhile is_word r = r"
    using assms(2) by (cases r; simp add: word_at_def)+
  have m: "\<forall>c \<in> set m. is_word c"
    using assms(1) by (simp add: list_all_iff)
  show "takeWhile is_word (m @ r) = m"
    using m r by (simp add: takeWhile_append2)
  show "dropWhile is_word (m @ r) = r"
    using m r by (simp add: dropWhile_append2)
qed

lemma word_at_rev_Cons: "m \<noteq> [] \<Longrightarrow> word_at (rev m @ [c]) = is_word (last m)"
proof -
  assume "m \<noteq> []"
  then obtain x xs where r: "rev m = x # xs"
    by (cases "rev m") auto
  then have "last m = x"
    by (metis hd_rev list.sel(1))
  with r show ?thesis
    by (simp add: word_at_def)
qed

lemma not_word_at_dropWhile: "\<not> word_at (dropWhile is_word s)"
  by (induction s) (auto simp: word_at_def)

text \<open>
  A token matches where the text has \<open>/\<close> followed by exactly the token's word: the word
  characters after the \<open>/\<close>, in lower case, are the token's letters.
\<close>

lemma token_matches_at_iff:
  assumes "slash_word tok"
  shows "token_matches_at tok s \<longleftrightarrow>
         (\<exists>rest. s = CHR ''/'' # rest \<and> word_after rest = tl tok)"
proof -
  obtain w where tok: "tok = CHR ''/'' # w" and w: "w \<noteq> []" "list_all is_lower_letter w"
    using assms by (auto simp: slash_word_def split: list.splits)
  show ?thesis
  proof
    assume m: "token_matches_at tok s"
    then obtain rest where s: "s = CHR ''/'' # rest" and p: "ci_prefix w rest"
      unfolding token_matches_at_def tok by (cases s) (auto simp: ci_match_slash)
    let ?m = "take (length w) rest"
    from p have l: "length w \<le> length rest" and lw: "map lower_ascii ?m = w"
      using w(2) by (simp_all add: ci_prefix_letters)
    have mw: "list_all is_word ?m"
      using letters_are_words [OF w(2) lw] .
    have "?m \<noteq> []"
      using w(1) l by auto
    then have "is_word (last ?m)"
      using mw by (simp add: list_all_iff)
    then have "word_at (rev (take (length tok) s))"
      using \<open>?m \<noteq> []\<close> by (simp add: tok s word_at_rev_Cons)
    with m have nw: "\<not> word_at (drop (length w) rest)"
      by (simp add: token_matches_at_def tok s)
    have "takeWhile is_word rest = ?m"
      using takeWhile_word_split(1) [OF mw nw] by simp
    then show "\<exists>rest. s = CHR ''/'' # rest \<and> word_after rest = tl tok"
      using s lw by (simp add: word_after_def tok)
  next
    assume "\<exists>rest. s = CHR ''/'' # rest \<and> word_after rest = tl tok"
    then obtain rest where s: "s = CHR ''/'' # rest" and wa: "word_after rest = w"
      by (auto simp: tok)
    let ?m = "takeWhile is_word rest"
    have lm: "length ?m = length w"
      using wa by (auto simp: word_after_def)
    have rest: "rest = ?m @ dropWhile is_word rest"
      by simp
    have tk: "take (length w) rest = ?m"
      using lm by (metis append_eq_conv_conj rest)
    have dr: "drop (length w) rest = dropWhile is_word rest"
      using lm by (metis append_eq_conv_conj rest)
    have p: "ci_prefix w rest"
      using w(2) wa lm tk by (simp add: ci_prefix_letters word_after_def)
         (metis length_takeWhile_le)
    have "?m \<noteq> []"
      using w(1) lm by auto
    then have "is_word (last ?m)"
      by (metis last_in_set set_takeWhileD)
    then have "word_at (rev (take (length tok) s))"
      using \<open>?m \<noteq> []\<close> tk by (simp add: tok s word_at_rev_Cons)
    moreover have "\<not> word_at (drop (length tok) s)"
      using dr not_word_at_dropWhile [of rest] by (simp add: tok s)
    ultimately show "token_matches_at tok s"
      using p by (simp add: token_matches_at_def tok s ci_match_slash)
  qed
qed

section \<open>Directive parser: searching and removing a token\<close>

lemma slash_word_Cons: "slash_word tok \<Longrightarrow> tok = CHR ''/'' # tl tok \<and> tl tok \<noteq> []"
  by (auto simp: slash_word_def split: list.splits)

lemma slash_word_eq_iff: "slash_word t \<Longrightarrow> slash_word t' \<Longrightarrow> t' = t \<longleftrightarrow> tl t' = tl t"
  by (metis slash_word_Cons)

lemma matches_Nil: "slash_word tok \<Longrightarrow> \<not> token_matches_at tok []"
  by (simp add: token_matches_at_iff)

lemma matches_Cons:
  "slash_word tok \<Longrightarrow> token_matches_at tok (c # cs) \<longleftrightarrow> c = CHR ''/'' \<and> word_after cs = tl tok"
  by (auto simp: token_matches_at_iff)

lemma drop_matched:
  assumes "slash_word tok" "word_after cs = tl tok"
  shows "drop (length tok - Suc 0) cs = dropWhile is_word cs"
proof -
  have "length (takeWhile is_word cs) = length (tl tok)"
    using assms(2) by (metis length_map word_after_def)
  then show ?thesis
    by (simp add: dropWhile_eq_drop)
qed

lemma re_search_Nil: "slash_word tok \<Longrightarrow> \<not> re_search tok []"
  by (simp add: matches_Nil)

lemmas token_simps = matches_Nil matches_Cons drop_matched

lemma re_search_Cons:
  "slash_word tok \<Longrightarrow>
   re_search tok (c # cs) \<longleftrightarrow> (c = CHR ''/'' \<and> word_after cs = tl tok) \<or> re_search tok cs"
  by (simp add: matches_Cons)

lemma remove_Cons:
  "slash_word tok \<Longrightarrow>
   re_sub_remove tok (c # cs) =
     (if c = CHR ''/'' \<and> word_after cs = tl tok then re_sub_remove tok (dropWhile is_word cs)
      else c # re_sub_remove tok cs)"
  by (simp add: token_simps)

lemma re_search_skip:
  "slash_word tok \<Longrightarrow> \<forall>c \<in> set a. c \<noteq> CHR ''/'' \<Longrightarrow> re_search tok (a @ b) = re_search tok b"
  by (induction a) (simp_all add: token_simps)

lemma re_search_dropWhile:
  assumes "slash_word tok" "\<And>c. P c \<Longrightarrow> c \<noteq> CHR ''/''"
  shows "re_search tok (dropWhile P s) = re_search tok s"
proof -
  have "\<forall>c \<in> set (takeWhile P s). c \<noteq> CHR ''/''"
    using assms(2) by (auto dest: set_takeWhileD)
  from re_search_skip [OF assms(1) this, of "dropWhile P s"] show ?thesis
    by simp
qed

lemma word_not_slash: "is_word c \<Longrightarrow> c \<noteq> CHR ''/''"
  by auto

lemma not_word_at_takeWhile: "\<not> word_at s \<Longrightarrow> takeWhile is_word s = []"
  by (cases s) (simp_all add: word_at_def)

lemma not_word_at_remove:
  "slash_word tok \<Longrightarrow> \<not> word_at s \<Longrightarrow> \<not> word_at (re_sub_remove tok s)"
proof (induction tok s rule: re_sub_remove.induct)
  case (1 tok)
  then show ?case by simp
next
  case (2 tok c cs)
  show ?case
  proof (cases "c = CHR ''/'' \<and> word_after cs = tl tok")
    case True
    then have m: "token_matches_at tok (c # cs)"
      using "2.prems"(1) by (simp add: matches_Cons)
    have d: "drop (length tok - 1) cs = dropWhile is_word cs"
      using True "2.prems"(1) drop_matched [of tok cs] by simp
    have "\<not> word_at (re_sub_remove tok (drop (length tok - 1) cs))"
      using "2.IH"(1) [OF m "2.prems"(1)] not_word_at_dropWhile [of cs] unfolding d by simp
    then show ?thesis
      using m by simp
  next
    case False
    then have "re_sub_remove tok (c # cs) = c # re_sub_remove tok cs"
      using "2.prems"(1) by (auto simp: token_simps)
    then show ?thesis
      using "2.prems"(2) by (simp add: word_at_def)
  qed
qed

lemma takeWhile_word_remove:
  "slash_word tok \<Longrightarrow> takeWhile is_word (re_sub_remove tok s) = takeWhile is_word s"
proof (induction s)
  case Nil
  then show ?case by simp
next
  case (Cons c s)
  show ?case
  proof (cases "is_word c")
    case True
    then have "re_sub_remove tok (c # s) = c # re_sub_remove tok s"
      using Cons.prems word_not_slash [OF True] by (simp add: token_simps)
    then show ?thesis
      using True Cons by simp
  next
    case False
    then have "\<not> word_at (c # s)"
      by (simp add: word_at_def)
    then have "\<not> word_at (re_sub_remove tok (c # s))"
      using Cons.prems by (rule not_word_at_remove [rotated])
    then show ?thesis
      using False by (simp add: not_word_at_takeWhile)
  qed
qed

lemma word_after_remove: "slash_word tok \<Longrightarrow> word_after (re_sub_remove tok s) = word_after s"
  by (simp add: word_after_def takeWhile_word_remove)

text \<open>
  Removing one token removes every match of it and neither makes nor breaks a match of
  another token.
\<close>

lemma re_search_remove:
  "slash_word t \<Longrightarrow> slash_word t' \<Longrightarrow>
   re_search t' (re_sub_remove t s) \<longleftrightarrow> re_search t' s \<and> t' \<noteq> t"
proof (induction t s rule: re_sub_remove.induct)
  case (1 tok)
  then show ?case by (simp add: token_simps)
next
  case (2 t c cs)
  note sw = "2.prems"
  show ?case
  proof (cases "c = CHR ''/'' \<and> word_after cs = tl t")
    case True
    then have m: "token_matches_at t (c # cs)"
      using sw(1) by (simp add: matches_Cons)
    have d: "drop (length t - 1) cs = dropWhile is_word cs"
      using True sw(1) drop_matched [of t cs] by simp
    have r: "re_sub_remove t (c # cs) = re_sub_remove t (dropWhile is_word cs)"
      using True sw(1) by (simp add: token_simps)
    have ih: "re_search t' (re_sub_remove t (dropWhile is_word cs))
        \<longleftrightarrow> re_search t' (dropWhile is_word cs) \<and> t' \<noteq> t"
      using "2.IH"(1) [OF m sw] unfolding d .
    have sk: "re_search t' (dropWhile is_word cs) = re_search t' cs"
      using sw(2) word_not_slash by (rule re_search_dropWhile)
    show ?thesis
    proof (cases "t' = t")
      case True
      then show ?thesis unfolding r ih by simp
    next
      case False
      then have "tl t' \<noteq> tl t"
        using sw by (simp add: slash_word_eq_iff)
      then have "re_search t' (c # cs) = re_search t' cs"
        using True sw(2) by (auto simp: token_simps)
      then show ?thesis
        unfolding r ih sk by simp
    qed
  next
    case False
    then have nm: "\<not> token_matches_at t (c # cs)"
      using sw(1) by (simp add: matches_Cons)
    have r: "re_sub_remove t (c # cs) = c # re_sub_remove t cs"
      using False sw(1) by (auto simp: token_simps)
    have ih: "re_search t' (re_sub_remove t cs) \<longleftrightarrow> re_search t' cs \<and> t' \<noteq> t"
      using "2.IH"(2) [OF nm sw] .
    have "re_search t' (c # re_sub_remove t cs) \<longleftrightarrow>
        (c = CHR ''/'' \<and> word_after cs = tl t') \<or> (re_search t' cs \<and> t' \<noteq> t)"
      using sw by (simp add: token_simps word_after_remove ih)
    moreover have "t' = t \<Longrightarrow> \<not> (c = CHR ''/'' \<and> word_after cs = tl t')"
      using False by simp
    ultimately show ?thesis
      unfolding r using sw(2) by (auto simp: token_simps)
  qed
qed

lemma remove_noop: "slash_word t \<Longrightarrow> \<not> re_search t s \<Longrightarrow> re_sub_remove t s = s"
  by (induction s) (auto simp: token_simps)

lemma re_search_remove_all:
  "\<forall>p \<in> set pats. slash_word p \<Longrightarrow> slash_word t \<Longrightarrow>
   re_search t (remove_all pats s) \<longleftrightarrow> re_search t s \<and> t \<notin> set pats"
proof (induction pats arbitrary: s)
  case Nil
  then show ?case by (simp add: remove_all_def)
next
  case (Cons p pats)
  have "remove_all (p # pats) s = remove_all pats (re_sub_remove p s)"
    by (simp add: remove_all_def)
  then show ?case
    using Cons.IH [of "re_sub_remove p s"] Cons.prems
    by (auto simp: re_search_remove)
qed

lemma remove_all_noop:
  "\<forall>p \<in> set pats. slash_word p \<and> \<not> re_search p s \<Longrightarrow> remove_all pats s = s"
proof (induction pats)
  case Nil
  then show ?case by (simp add: remove_all_def)
next
  case (Cons p pats)
  then have "re_sub_remove p s = s"
    by (simp add: remove_noop)
  then have "remove_all (p # pats) s = remove_all pats s"
    by (simp add: remove_all_def)
  with Cons show ?case by simp
qed

lemma remove_all_append: "remove_all (ps @ qs) s = remove_all qs (remove_all ps s)"
  by (simp add: remove_all_def)

section \<open>Directive parser: the whitespace clean-up\<close>

lemma takeWhile_word_collapse: "takeWhile is_word (collapse_ws s) = takeWhile is_word s"
proof (induction s rule: collapse_ws.induct)
  case 1
  then show ?case by simp
next
  case (2 c cs)
  then show ?case
    by (cases "isspace c") (simp_all add: space_not_word)
qed

lemma re_search_collapse: "slash_word t \<Longrightarrow> re_search t (collapse_ws s) = re_search t s"
proof (induction s rule: collapse_ws.induct)
  case 1
  then show ?case by simp
next
  case (2 c cs)
  show ?case
  proof (cases "isspace c")
    case True
    have "re_search t (dropWhile isspace cs) = re_search t cs"
      using "2.prems" space_not_slash by (rule re_search_dropWhile)
    then have "re_search t (collapse_ws (dropWhile isspace cs)) = re_search t cs"
      using "2.IH"(1) [OF True "2.prems"] by simp
    moreover have "collapse_ws (c # cs) = CHR '' '' # collapse_ws (dropWhile isspace cs)"
      using True by simp
    ultimately show ?thesis
      using "2.prems" space_not_slash [OF True] by (simp add: token_simps)
  next
    case False
    then have "collapse_ws (c # cs) = c # collapse_ws cs"
      by simp
    then show ?thesis
      using "2.prems" "2.IH"(2) [OF False "2.prems"]
      by (simp add: token_simps word_after_def takeWhile_word_collapse)
  qed
qed

lemma takeWhile_word_trailing:
  "\<forall>c \<in> set ws. \<not> is_word c \<Longrightarrow> takeWhile is_word (a @ ws) = takeWhile is_word a"
proof (induction a)
  case Nil
  then show ?case by (cases ws) simp_all
next
  case (Cons c a)
  then show ?case by simp
qed

lemma re_search_trailing_ws:
  assumes "slash_word t" "\<forall>c \<in> set ws. isspace c"
  shows "re_search t (a @ ws) = re_search t a"
proof (induction a)
  case Nil
  have "\<forall>c \<in> set ws. c \<noteq> CHR ''/''"
    using assms(2) space_not_slash by blast
  from re_search_skip [OF assms(1) this, of "[]"] show ?case
    by simp
next
  case (Cons c a)
  have "\<forall>c \<in> set ws. \<not> is_word c"
    using assms(2) space_not_word by blast
  then have "word_after (a @ ws) = word_after a"
    by (simp add: word_after_def takeWhile_word_trailing)
  with Cons assms(1) show ?case
    by (simp add: token_simps)
qed

lemma rstrip_decompose:
  "y = rev (dropWhile isspace (rev y)) @ rev (takeWhile isspace (rev y))"
proof -
  have "rev y = takeWhile isspace (rev y) @ dropWhile isspace (rev y)"
    by simp
  then have "rev (rev y) = rev (takeWhile isspace (rev y) @ dropWhile isspace (rev y))"
    by simp
  then show ?thesis
    by (simp only: rev_rev_ident rev_append)
qed

lemma re_search_strip: "slash_word t \<Longrightarrow> re_search t (py_strip s) = re_search t s"
proof -
  assume sw: "slash_word t"
  let ?y = "dropWhile isspace s"
  let ?r = "rev (dropWhile isspace (rev ?y))"
  let ?w = "rev (takeWhile isspace (rev ?y))"
  have "\<forall>c \<in> set ?w. isspace c"
    by (auto dest: set_takeWhileD)
  then have "re_search t (?r @ ?w) = re_search t ?r"
    by (rule re_search_trailing_ws [OF sw])
  moreover have "?r @ ?w = ?y"
    using rstrip_decompose [of ?y] by simp
  moreover have "re_search t ?y = re_search t s"
    using sw space_not_slash by (rule re_search_dropWhile)
  ultimately show ?thesis
    by (simp add: py_strip_def)
qed

lemma re_search_normalize: "slash_word t \<Longrightarrow> re_search t (normalize_ws s) = re_search t s"
  by (simp add: normalize_ws_def re_search_strip re_search_collapse)

lemma not_space_at_append: "\<not> space_at (a @ b) \<Longrightarrow> \<not> space_at a"
  by (cases a) (simp_all add: space_at_def)

lemma not_space_at_dropWhile: "\<not> space_at (dropWhile isspace cs)"
  by (induction cs) (simp_all add: space_at_def)

lemma space_at_collapse: "space_at (collapse_ws s) = space_at s"
  by (cases s) (simp_all add: space_at_def)

lemma single_spaced_collapse: "single_spaced (collapse_ws s)"
proof (induction s rule: collapse_ws.induct)
  case 1
  then show ?case by simp
next
  case (2 c cs)
  show ?case
  proof (cases "isspace c")
    case True
    have "\<not> space_at (collapse_ws (dropWhile isspace cs))"
      by (simp add: space_at_collapse not_space_at_dropWhile)
    with True "2.IH"(1) show ?thesis
      by simp
  next
    case False
    with "2.IH"(2) show ?thesis by simp
  qed
qed

lemma dropWhile_not_space_at: "\<not> space_at cs \<Longrightarrow> dropWhile isspace cs = cs"
  by (cases cs) (simp_all add: space_at_def)

lemma collapse_single_spaced: "single_spaced x \<Longrightarrow> collapse_ws x = x"
proof (induction x)
  case Nil
  then show ?case by simp
next
  case (Cons c cs)
  show ?case
  proof (cases "isspace c")
    case True
    with Cons.prems have c: "c = CHR '' ''" and n: "\<not> space_at cs" and s: "single_spaced cs"
      by simp_all
    have "collapse_ws (c # cs) = CHR '' '' # collapse_ws (dropWhile isspace cs)"
      using True by simp
    then show ?thesis
      using c Cons.IH [OF s] by (simp add: dropWhile_not_space_at [OF n])
  next
    case False
    with Cons show ?thesis by simp
  qed
qed

lemma single_spaced_append: "single_spaced (a @ b) \<Longrightarrow> single_spaced a \<and> single_spaced b"
proof (induction a)
  case Nil
  then show ?case by simp
next
  case (Cons c a)
  show ?case
  proof (cases "isspace c")
    case True
    with Cons.prems have c: "c = CHR '' ''" and n: "\<not> space_at (a @ b)"
      and s: "single_spaced (a @ b)"
      by simp_all
    from Cons.IH [OF s] not_space_at_append [OF n] True c show ?thesis
      by simp
  next
    case False
    with Cons.prems have "single_spaced (a @ b)"
      by simp
    from Cons.IH [OF this] False show ?thesis
      by simp
  qed
qed

lemma single_spaced_strip: "single_spaced x \<Longrightarrow> single_spaced (py_strip x)"
proof -
  assume x: "single_spaced x"
  let ?y = "dropWhile isspace x"
  have "single_spaced (takeWhile isspace x @ ?y)"
    using x by simp
  then have "single_spaced ?y"
    using single_spaced_append by blast
  then have "single_spaced (rev (dropWhile isspace (rev ?y)) @ rev (takeWhile isspace (rev ?y)))"
    using rstrip_decompose [of ?y] by simp
  then show ?thesis
    unfolding py_strip_def using single_spaced_append by blast
qed

lemma dropWhile_head: "xs = [] \<or> \<not> P (hd xs) \<Longrightarrow> dropWhile P xs = xs"
  by (cases xs) auto

lemma strip_strip: "py_strip (py_strip x) = py_strip x"
proof -
  let ?y = "dropWhile isspace x"
  let ?r = "rev (dropWhile isspace (rev ?y))"
  have y: "?y = [] \<or> \<not> isspace (hd ?y)"
    by (metis hd_dropWhile)
  have "?r = [] \<or> hd ?r = hd ?y"
    by (metis hd_append2 rstrip_decompose)
  with y have "?r = [] \<or> \<not> isspace (hd ?r)"
    by (metis dropWhile.simps(1) rev.simps(1))
  then have "dropWhile isspace ?r = ?r"
    by (rule dropWhile_head)
  then show ?thesis
    by (simp add: py_strip_def)
qed

lemma normalize_idem: "normalize_ws (normalize_ws s) = normalize_ws s"
proof -
  have "single_spaced (py_strip (collapse_ws s))"
    by (simp add: single_spaced_strip single_spaced_collapse)
  then have "collapse_ws (py_strip (collapse_ws s)) = py_strip (collapse_ws s)"
    by (rule collapse_single_spaced)
  then show ?thesis
    by (simp add: normalize_ws_def strip_strip)
qed

section \<open>Directive parser: the three loops\<close>

lemma known_slash_words: "\<forall>p \<in> set known_patterns. slash_word p"
  by (simp add: known_patterns_def DIRECTIVE_PATTERNS_def TOOL_PROFILE_PATTERNS_def
      PROMPT_MODE_PATTERNS_def slash_word_def is_lower_letter_def ord_def)

lemma directive_step_text:
  "slash_word p \<Longrightarrow>
   directive_step (p, d) (ds, el, s) =
     ((if re_search p s then ds @ [d] else ds),
      (if re_search p s \<and> d = ELEVATED then True else el),
      re_sub_remove p s)"
  by (simp add: remove_noop)

lemma value_step_text:
  "slash_word p \<Longrightarrow>
   value_step (p, v) (cur, s) = ((if re_search p s then v else cur), re_sub_remove p s)"
  by (simp add: remove_noop)

lemma directive_loop:
  "\<forall>p \<in> fst ` set ps. slash_word p \<Longrightarrow> distinct (map fst ps) \<Longrightarrow>
   fold directive_step ps (ds, el, s) =
     (ds @ map snd (filter (\<lambda>(p, d). re_search p s) ps),
      (el \<or> list_ex (\<lambda>(p, d). re_search p s \<and> d = ELEVATED) ps),
      remove_all (map fst ps) s)"
proof (induction ps arbitrary: ds el s)
  case Nil
  then show ?case by (simp add: remove_all_def)
next
  case (Cons pd ps)
  obtain p d where pd: "pd = (p, d)" by (cases pd)
  have sp: "slash_word p" and sq: "\<forall>q \<in> fst ` set ps. slash_word q"
    and np: "p \<notin> fst ` set ps" and dist: "distinct (map fst ps)"
    using Cons.prems by (simp_all add: pd)
  let ?s1 = "re_sub_remove p s"
  have same: "re_search q ?s1 = re_search q s" if "(q, e) \<in> set ps" for q e
  proof -
    have "slash_word q" "q \<noteq> p"
      using that sq np by force+
    then show ?thesis
      using sp by (simp add: re_search_remove)
  qed
  have f: "filter (\<lambda>(q, e). re_search q ?s1) ps = filter (\<lambda>(q, e). re_search q s) ps"
    using same by (intro filter_cong) auto
  have e: "list_ex (\<lambda>(q, e). re_search q ?s1 \<and> e = ELEVATED) ps
      = list_ex (\<lambda>(q, e). re_search q s \<and> e = ELEVATED) ps"
    using same by (auto simp: list_ex_iff)
  have "fold directive_step (pd # ps) (ds, el, s)
      = fold directive_step ps
          ((if re_search p s then ds @ [d] else ds),
           (if re_search p s \<and> d = ELEVATED then True else el), ?s1)"
    by (simp only: fold_simps pd directive_step_text [OF sp])
  also have "\<dots> = ((if re_search p s then ds @ [d] else ds)
        @ map snd (filter (\<lambda>(q, e). re_search q ?s1) ps),
      ((if re_search p s \<and> d = ELEVATED then True else el)
        \<or> list_ex (\<lambda>(q, e). re_search q ?s1 \<and> e = ELEVATED) ps),
      remove_all (map fst ps) ?s1)"
    by (rule Cons.IH [OF sq dist])
  finally show ?case
    unfolding f e by (auto simp: pd remove_all_def)
qed

lemma value_loop:
  "\<forall>p \<in> fst ` set ps. slash_word p \<Longrightarrow> distinct (map fst ps) \<Longrightarrow>
   fold value_step ps (cur, s) = (last_in_order ps s cur, remove_all (map fst ps) s)"
proof (induction ps arbitrary: cur s)
  case Nil
  then show ?case by (simp add: remove_all_def last_in_order_def)
next
  case (Cons pv ps)
  obtain p v where pv: "pv = (p, v)" by (cases pv)
  have sp: "slash_word p" and sq: "\<forall>q \<in> fst ` set ps. slash_word q"
    and np: "p \<notin> fst ` set ps" and dist: "distinct (map fst ps)"
    using Cons.prems by (simp_all add: pv)
  let ?s1 = "re_sub_remove p s"
  let ?c1 = "if re_search p s then v else cur"
  have same: "re_search q ?s1 = re_search q s" if "(q, e) \<in> set ps" for q e
  proof -
    have "slash_word q" "q \<noteq> p"
      using that sq np by force+
    then show ?thesis
      using sp by (simp add: re_search_remove)
  qed
  have l: "last_in_order ps ?s1 c = last_in_order ps s c" for c
    unfolding last_in_order_def using same by (intro fold_cong) auto
  have "fold value_step (pv # ps) (cur, s) = fold value_step ps (?c1, ?s1)"
    by (simp only: fold_simps pv value_step_text [OF sp])
  also have "\<dots> = (last_in_order ps ?s1 ?c1, remove_all (map fst ps) ?s1)"
    by (rule Cons.IH [OF sq dist])
  finally show ?case
    unfolding l by (simp add: pv remove_all_def last_in_order_def)
qed

lemma last_in_order_cong:
  "\<forall>p \<in> fst ` set ps. re_search p s = re_search p s' \<Longrightarrow>
   last_in_order ps s d = last_in_order ps s' d"
  unfolding last_in_order_def by (intro fold_cong) auto

lemma last_in_order_none:
  "\<forall>p \<in> fst ` set ps. \<not> re_search p s \<Longrightarrow> last_in_order ps s d = d"
  unfolding last_in_order_def by (induction ps arbitrary: d) auto

lemma remove_all_Nil: "remove_all ps [] = []"
  by (induction ps) (simp_all add: remove_all_def)

lemma normalize_Nil: "normalize_ws [] = []"
  by (simp add: normalize_ws_def py_strip_def)

lemma pattern_sets:
  "set (map fst DIRECTIVE_PATTERNS) \<subseteq> set known_patterns"
  "set (map fst TOOL_PROFILE_PATTERNS) \<subseteq> set known_patterns"
  "set (map fst PROMPT_MODE_PATTERNS) \<subseteq> set known_patterns"
  "distinct known_patterns"
  by (simp_all add: known_patterns_def DIRECTIVE_PATTERNS_def TOOL_PROFILE_PATTERNS_def
      PROMPT_MODE_PATTERNS_def)

text \<open>
  What \<open>parse_directives\<close> returns, read off the text it is given: each loop sees the
  matches of its own patterns in the original text.
\<close>

lemma parse_directives_explicit:
  "parse_directives T =
     \<lparr>directives = map snd (filter (\<lambda>(p, d). re_search p T) DIRECTIVE_PATTERNS),
      clean_text = normalize_ws (remove_all known_patterns T),
      prompt_mode = last_in_order PROMPT_MODE_PATTERNS T PM_FULL,
      tool_profile = last_in_order TOOL_PROFILE_PATTERNS T FULL,
      elevated = list_ex (\<lambda>(p, d). re_search p T \<and> d = ELEVATED) DIRECTIVE_PATTERNS\<rparr>"
proof (cases "T = []")
  case True
  have n: "\<not> re_search p []" if "p \<in> set known_patterns" for p
    using that known_slash_words re_search_Nil by blast
  have "filter (\<lambda>(p, d). re_search p []) DIRECTIVE_PATTERNS = []"
    using n pattern_sets(1) by (auto simp: filter_empty_conv)
  moreover have "\<not> list_ex (\<lambda>(p, d). re_search p [] \<and> d = ELEVATED) DIRECTIVE_PATTERNS"
    using n pattern_sets(1) by (auto simp: list_ex_iff)
  moreover have "last_in_order PROMPT_MODE_PATTERNS [] PM_FULL = PM_FULL"
    using n pattern_sets(3) by (intro last_in_order_none) auto
  moreover have "last_in_order TOOL_PROFILE_PATTERNS [] FULL = FULL"
    using n pattern_sets(2) by (intro last_in_order_none) auto
  ultimately show ?thesis
    using True by (simp add: parse_directives_def remove_all_Nil normalize_Nil)
next
  case False
  let ?d = "map fst DIRECTIVE_PATTERNS" and ?t = "map fst TOOL_PROFILE_PATTERNS"
    and ?m = "map fst PROMPT_MODE_PATTERNS"
  have k: "known_patterns = ?d @ ?t @ ?m"
    by (simp add: known_patterns_def)
  have dist: "distinct ?d" "distinct ?t" "distinct ?m"
    using pattern_sets(4) unfolding k by simp_all
  have sw: "\<forall>p \<in> fst ` set DIRECTIVE_PATTERNS. slash_word p"
    "\<forall>p \<in> fst ` set TOOL_PROFILE_PATTERNS. slash_word p"
    "\<forall>p \<in> fst ` set PROMPT_MODE_PATTERNS. slash_word p"
    using known_slash_words unfolding k by auto
  let ?T1 = "remove_all ?d T"
  let ?T2 = "remove_all ?t ?T1"
  have l1: "fold directive_step DIRECTIVE_PATTERNS ([], False, T) =
      (map snd (filter (\<lambda>(p, d). re_search p T) DIRECTIVE_PATTERNS),
       list_ex (\<lambda>(p, d). re_search p T \<and> d = ELEVATED) DIRECTIVE_PATTERNS, ?T1)"
    using directive_loop [OF sw(1) dist(1), of "[]" False T] by simp
  have l2: "fold value_step TOOL_PROFILE_PATTERNS (FULL, ?T1) =
      (last_in_order TOOL_PROFILE_PATTERNS ?T1 FULL, ?T2)"
    by (rule value_loop [OF sw(2) dist(2)])
  have l3: "fold value_step PROMPT_MODE_PATTERNS (PM_FULL, ?T2) =
      (last_in_order PROMPT_MODE_PATTERNS ?T2 PM_FULL, remove_all ?m ?T2)"
    by (rule value_loop [OF sw(3) dist(3)])
  have s1: "re_search p ?T1 = re_search p T" if "p \<in> set ?t" for p
  proof -
    have "slash_word p" "p \<notin> set ?d"
      using that sw(2) pattern_sets(4) unfolding k by auto
    then show ?thesis
      using sw(1) by (simp add: re_search_remove_all)
  qed
  have s2: "re_search p ?T2 = re_search p T" if "p \<in> set ?m" for p
  proof -
    have "slash_word p" "p \<notin> set ?d" "p \<notin> set ?t"
      using that sw(3) pattern_sets(4) unfolding k by auto
    then show ?thesis
      using sw(1,2) by (simp add: re_search_remove_all)
  qed
  have p1: "last_in_order TOOL_PROFILE_PATTERNS ?T1 FULL = last_in_order TOOL_PROFILE_PATTERNS T FULL"
    using s1 by (intro last_in_order_cong) auto
  have p2: "last_in_order PROMPT_MODE_PATTERNS ?T2 PM_FULL
      = last_in_order PROMPT_MODE_PATTERNS T PM_FULL"
    using s2 by (intro last_in_order_cong) auto
  have r: "remove_all ?m ?T2 = remove_all known_patterns T"
    unfolding k by (simp add: remove_all_append)
  show ?thesis
    using False by (simp add: parse_directives_def l1 l2 l3 p1 p2 r normalize_ws_def)
qed

lemma no_known_token_left:
  "p \<in> set known_patterns \<Longrightarrow> \<not> re_search p (clean_text (parse_directives T))"
proof -
  assume p: "p \<in> set known_patterns"
  then have "slash_word p"
    using known_slash_words by blast
  then show ?thesis
    using p known_slash_words
    by (simp add: parse_directives_explicit re_search_normalize re_search_remove_all)
qed

text \<open>
  C4 (as amended). Parsing the cleaned text again finds no directive, returns the
  cleaned text unchanged, and returns the defaults for the prompt mode, the tool
  profile and the elevated flag.
\<close>

theorem parse_clean_text_again:
  "parse_directives (clean_text (parse_directives T)) =
     \<lparr>directives = [], clean_text = clean_text (parse_directives T), prompt_mode = PM_FULL,
      tool_profile = FULL, elevated = False\<rparr>"
proof -
  let ?c = "clean_text (parse_directives T)"
  have n: "\<not> re_search p ?c" if "p \<in> set known_patterns" for p
    using that by (rule no_known_token_left)
  have "filter (\<lambda>(p, d). re_search p ?c) DIRECTIVE_PATTERNS = []"
    using n pattern_sets(1) by (auto simp: filter_empty_conv)
  moreover have "\<not> list_ex (\<lambda>(p, d). re_search p ?c \<and> d = ELEVATED) DIRECTIVE_PATTERNS"
    using n pattern_sets(1) by (auto simp: list_ex_iff)
  moreover have "last_in_order PROMPT_MODE_PATTERNS ?c PM_FULL = PM_FULL"
    using n pattern_sets(3) by (intro last_in_order_none) auto
  moreover have "last_in_order TOOL_PROFILE_PATTERNS ?c FULL = FULL"
    using n pattern_sets(2) by (intro last_in_order_none) auto
  moreover have "remove_all known_patterns ?c = ?c"
    using n known_slash_words by (intro remove_all_noop) auto
  moreover have "normalize_ws ?c = ?c"
    by (simp add: parse_directives_explicit normalize_idem)
  ultimately show ?thesis
    by (subst parse_directives_explicit) simp
qed

theorem reparse_profile_counterexample: "\<not> spec_reparse_same ''/coding hi''"
  by code_simp

text \<open>
  C5 (as amended). The tool profile is that of the last pattern, in the order minimal,
  coding, messaging, full, that occurs in the text, and the prompt mode that of the
  last in the order quiet, silent, wherever in the text the tokens stand; no known
  token is left in the cleaned text; and an unknown \<open>/word\<close> token of the text is still
  in the cleaned text.
\<close>

theorem profile_and_mode_by_pattern_order:
  "tool_profile (parse_directives T) =
     (if re_search ''/full'' T then FULL
      else if re_search ''/messaging'' T then MESSAGING
      else if re_search ''/coding'' T then CODING
      else if re_search ''/minimal'' T then MINIMAL else FULL) \<and>
   prompt_mode (parse_directives T) =
     (if re_search ''/silent'' T then PM_NONE
      else if re_search ''/quiet'' T then PM_MINIMAL else PM_FULL) \<and>
   \<not> list_ex (\<lambda>p. re_search p (clean_text (parse_directives T))) known_patterns \<and>
   (slash_word u \<and> u \<notin> set known_patterns \<and> re_search u T \<longrightarrow>
      re_search u (clean_text (parse_directives T)))"
proof -
  have "slash_word u \<Longrightarrow> u \<notin> set known_patterns \<Longrightarrow> re_search u T \<Longrightarrow>
      re_search u (clean_text (parse_directives T))"
    using known_slash_words
    by (simp add: parse_directives_explicit re_search_normalize re_search_remove_all)
  moreover have "\<not> list_ex (\<lambda>p. re_search p (clean_text (parse_directives T))) known_patterns"
    using no_known_token_left by (simp add: list_ex_iff)
  ultimately show ?thesis
    by (simp add: parse_directives_explicit last_in_order_def TOOL_PROFILE_PATTERNS_def
        PROMPT_MODE_PATTERNS_def)
qed

theorem profile_and_mode_by_pattern_order_witness:
  "slash_word ''/foo'' \<and> ''/foo'' \<notin> set known_patterns \<and>
   re_search ''/foo'' ''/coding /minimal /foo x'' \<and>
   re_search ''/foo'' (clean_text (parse_directives ''/coding /minimal /foo x'')) \<and>
   tool_profile (parse_directives ''/coding /minimal /foo x'') = CODING"
proof -
  have h: "slash_word ''/foo''" "''/foo'' \<notin> set known_patterns"
    "re_search ''/foo'' ''/coding /minimal /foo x''"
    "re_search ''/coding'' ''/coding /minimal /foo x''"
    "\<not> re_search ''/messaging'' ''/coding /minimal /foo x''"
    "\<not> re_search ''/full'' ''/coding /minimal /foo x''"
    by code_simp+
  show ?thesis
    using h profile_and_mode_by_pattern_order [of "''/coding /minimal /foo x''" "''/foo''"]
    by simp
qed

theorem last_profile_token_counterexample:
  "tool_profile (parse_directives ''/coding /minimal x'') = CODING \<and>
   spec_tool_profile ''/coding /minimal x'' = MINIMAL"
  by code_simp

section \<open>History file: what the store writes, it reads back\<close>

lemma split_no_newline:
  "CHR 0x0A \<notin> set s \<Longrightarrow> split_from newline acc s = [rev acc @ s]"
  by (induction s arbitrary: acc) (auto simp: newline_def)

lemma split_append_newline:
  "split_from newline acc (a @ newline @ b) = split_from newline acc a @ split_from newline [] b"
  by (induction a arbitrary: acc) (auto simp: newline_def)

lemma splitlines_append:
  "splitlines_nl (a @ newline @ b) = splitlines_nl a @ splitlines_nl b"
  by (simp add: splitlines_nl_def py_split_def split_append_newline)

lemma splitlines_join:
  "ps \<noteq> [] \<Longrightarrow> splitlines_nl (py_join newline ps) = concat (map splitlines_nl ps)"
proof (induction ps)
  case Nil
  then show ?case by simp
next
  case (Cons x xs)
  then show ?case
    by (cases "xs = []") (simp_all add: py_join_Cons splitlines_append)
qed

lemma splitlines_line: "CHR 0x0A \<notin> set h \<Longrightarrow> splitlines_nl (h @ newline) = [h, []]"
  using splitlines_append [of h "[]"]
  by (simp add: splitlines_nl_def py_split_def split_no_newline)

lemma splitlines_newline: "splitlines_nl newline = [[], []]"
  using splitlines_line [of "[]"] by simp

lemma py_join_append:
  "xs \<noteq> [] \<Longrightarrow> ys \<noteq> [] \<Longrightarrow> py_join sep (xs @ ys) = py_join sep xs @ sep @ py_join sep ys"
  by (induction xs) (auto simp: py_join_Cons)

lemma isspace_newline: "isspace CHR 0x0A"
  by (simp add: isspace_def ord_def)

lemma strip_padded:
  assumes "\<forall>c \<in> set a. isspace c" "\<forall>c \<in> set b. isspace c"
  shows "py_strip (a @ x @ b) = py_strip x"
proof -
  have l: "dropWhile isspace (a @ x @ b) = dropWhile isspace (x @ b)"
    by (rule dropWhile_append2) (use assms(1) in auto)
  show ?thesis
  proof (cases "\<forall>c \<in> set x. isspace c")
    case True
    then have e: "dropWhile isspace (x @ b) = []" "dropWhile isspace x = []"
      using assms(2) by auto
    show ?thesis
      unfolding py_strip_def l e by simp
  next
    case False
    then obtain c where "c \<in> set x" "\<not> isspace c"
      by blast
    then have "dropWhile isspace (x @ b) = dropWhile isspace x @ b"
      by (rule dropWhile_append1)
    moreover have "dropWhile isspace (rev b @ y) = dropWhile isspace y" for y
      by (rule dropWhile_append2) (use assms(2) in auto)
    ultimately show ?thesis
      by (simp add: py_strip_def l)
  qed
qed

lemma strip_framed:
  "py_strip (py_join newline ([[]] @ splitlines_nl c @ [[], []])) = py_strip c"
proof -
  have "py_join newline ([[]] @ splitlines_nl c @ [[], []])
        = newline @ c @ newline @ newline"
    using splitlines_not_Nil [of c]
    by (simp add: py_join_append join_splitlines py_join_Cons)
  moreover have "\<forall>ch \<in> set newline. isspace ch" "\<forall>ch \<in> set (newline @ newline). isspace ch"
    by (simp_all add: newline_def isspace_newline)
  ultimately show ?thesis
    using strip_padded [of newline "newline @ newline" c] by simp
qed

subsection \<open>The lines of the file\<close>

lemma header_no_newline:
  "iso_ok clk (turn_timestamp turn) \<Longrightarrow> CHR 0x0A \<notin> set (header_line clk turn)"
  by (simp add: header_line_def iso_ok_def)

lemma lines_of_turns:
  "\<forall>turn \<in> set h. iso_ok clk (turn_timestamp turn) \<Longrightarrow>
   concat (map splitlines_nl
     (concat (map (\<lambda>turn. [header_line clk turn @ newline, turn_content turn, newline]) h)))
   = concat (map (turn_lines clk) h)"
  by (induction h)
     (simp_all add: turn_lines_def splitlines_line splitlines_newline header_no_newline)

lemma lines_of_file:
  assumes "\<forall>turn \<in> set h. iso_ok clk (turn_timestamp turn)"
  shows "splitlines_nl (format_history clk h)
         = [''# Conversation History'', []] @ concat (map (turn_lines clk) h)"
proof -
  have "splitlines_nl (''# Conversation History'' @ newline) = [''# Conversation History'', []]"
    by (rule splitlines_line) simp
  then show ?thesis
    unfolding format_history_def
    by (simp add: splitlines_join lines_of_turns [OF assms])
qed

subsection \<open>Reading the lines\<close>

lemma split_dash_no_blank:
  "CHR '' '' \<notin> set s \<Longrightarrow> split_from '' - '' acc s = [rev acc @ s]"
  by (induction s arbitrary: acc) auto

lemma header_is_header:
  "prefix ''## User'' (header_line clk turn) \<longleftrightarrow> turn_role turn = ''user''"
  "turn_role turn \<noteq> ''user'' \<Longrightarrow> prefix ''## Assistant'' (header_line clk turn)"
  by (simp_all add: header_line_def)

lemma header_timestamp_of_header:
  assumes "iso_ok clk (turn_timestamp turn)"
  shows "header_timestamp clk (header_line clk turn) ts = Some (turn_timestamp turn)"
proof -
  let ?iso = "isoformat clk (turn_timestamp turn)"
  have b: "CHR '' '' \<notin> set ?iso" and f: "fromisoformat clk ?iso = Some (turn_timestamp turn)"
    using assms by (simp_all add: iso_ok_def)
  have c: "contains '' - '' (header_line clk turn)"
    by (simp add: header_line_def)
  have "py_split '' - '' (header_line clk turn) =
      [''## '' @ (if turn_role turn = ''user'' then ''User'' else ''Assistant''), ?iso]"
    by (simp add: header_line_def py_split_def split_dash_no_blank [OF b])
  then show ?thesis
    using c f by (simp add: header_timestamp_def)
qed

lemma parse_header:
  assumes "iso_ok clk (turn_timestamp turn)"
  shows "parse_line clk (header_line clk turn) (h, r, c, ts)
         = (close_turn clk (h, r, c, ts), Some (turn_role (reread turn)), [],
            Some (turn_timestamp turn))"
  using header_is_header [where clk = clk and turn = turn]
  by (simp add: parse_line_def header_timestamp_of_header [OF assms] reread_def)

lemma parse_body:
  "list_all (\<lambda>l. \<not> prefix ''## User'' l \<and> \<not> prefix ''## Assistant'' l) ls \<Longrightarrow>
   fold (parse_line clk) ls (h, Some r, c, ts) = (h, Some r, c @ ls, ts)"
  by (induction ls arbitrary: c) (simp_all add: parse_line_def)

lemma parse_turn_lines:
  assumes "storable clk turn"
  shows "fold (parse_line clk) (turn_lines clk turn) st
         = (close_turn clk st, Some (turn_role (reread turn)),
            [[]] @ splitlines_nl (turn_content turn) @ [[], []], Some (turn_timestamp turn))"
proof -
  obtain h r c ts where st: "st = (h, r, c, ts)"
    by (cases st) auto
  have i: "iso_ok clk (turn_timestamp turn)"
    and b: "list_all (\<lambda>l. \<not> prefix ''## User'' l \<and> \<not> prefix ''## Assistant'' l)
              (splitlines_nl (turn_content turn))"
    using assms by (simp_all add: storable_def storable_content_def)
  have "list_all (\<lambda>l. \<not> prefix ''## User'' l \<and> \<not> prefix ''## Assistant'' l)
          ([[]] @ splitlines_nl (turn_content turn) @ [[], []])"
    using b by simp
  from parse_body [OF this, of clk] show ?thesis
    unfolding st turn_lines_def
    by (simp add: parse_header [OF i] del: append_Cons append_Nil)
qed

lemma close_pending_turn:
  assumes "storable clk turn"
  shows "close_turn clk (h, Some (turn_role (reread turn)),
            [[]] @ splitlines_nl (turn_content turn) @ [[], []], Some (turn_timestamp turn))
         = h @ [reread turn]"
proof -
  have "py_strip (turn_content turn) = turn_content turn"
    using assms by (simp add: storable_def storable_content_def)
  then show ?thesis
    unfolding close_turn_def using strip_framed [of "turn_content turn"]
    by (simp add: reread_def del: append_Cons append_Nil)
qed

lemma parse_all_turns:
  "\<forall>turn \<in> set hs. storable clk turn \<Longrightarrow>
   close_turn clk (fold (parse_line clk) (concat (map (turn_lines clk) hs)) st)
   = close_turn clk st @ map reread hs"
proof (induction hs arbitrary: st)
  case Nil
  then show ?case by simp
next
  case (Cons turn hs)
  then have s: "storable clk turn" and r: "\<forall>t \<in> set hs. storable clk t"
    by simp_all
  let ?st1 = "(close_turn clk st, Some (turn_role (reread turn)),
      [[]] @ splitlines_nl (turn_content turn) @ [[], []], Some (turn_timestamp turn))"
  have "close_turn clk (fold (parse_line clk) (concat (map (turn_lines clk) (turn # hs))) st)
      = close_turn clk (fold (parse_line clk) (concat (map (turn_lines clk) hs)) ?st1)"
    by (simp add: parse_turn_lines [OF s] del: append_Cons append_Nil)
  also have "\<dots> = close_turn clk ?st1 @ map reread hs"
    by (rule Cons.IH [OF r])
  also have "\<dots> = close_turn clk st @ map reread (turn # hs)"
    by (simp add: close_pending_turn [OF s] del: append_Cons append_Nil)
  finally show ?case .
qed

lemma parse_formatted:
  assumes "\<forall>turn \<in> set hs. storable clk turn"
  shows "parse_history clk (format_history clk hs) = map reread hs"
proof -
  have i: "\<forall>turn \<in> set hs. iso_ok clk (turn_timestamp turn)"
    using assms by (simp add: storable_def)
  have "fold (parse_line clk) [''# Conversation History'', []] ([], None, [], None)
        = ([], None, [], None)"
    by (simp add: parse_line_def)
  then have "parse_history clk (format_history clk hs)
      = close_turn clk (fold (parse_line clk) (concat (map (turn_lines clk) hs))
          ([], None, [], None))"
    by (simp add: parse_history_def lines_of_file [OF i])
  also have "\<dots> = close_turn clk ([], None, [], None) @ map reread hs"
    by (rule parse_all_turns [OF assms])
  finally show ?thesis
    by (simp add: close_turn_def)
qed

lemma format_reread: "format_history clk (map reread hs) = format_history clk hs"
proof -
  have "header_line clk (reread turn) = header_line clk turn" for turn
    by (simp add: header_line_def reread_def)
  then show ?thesis
    by (simp add: format_history_def comp_def reread_def)
qed

text \<open>
  C2 (as amended). For turns whose content has no whitespace at its ends and no line
  starting with \<open>## User\<close> or \<open>## Assistant\<close> (and time stamps that \<open>isoformat\<close> writes
  without blank or line break and \<open>fromisoformat\<close> reads back), parsing the file the
  store wrote and writing the parsed turns gives the same file.
\<close>

theorem history_round_trip:
  assumes "list_all (storable clk) history"
  shows "format_history clk (parse_history clk (format_history clk history))
         = format_history clk history"
proof -
  have "\<forall>turn \<in> set history. storable clk turn"
    using assms by (simp add: list_all_iff)
  then show ?thesis
    by (simp add: parse_formatted format_reread)
qed

theorem history_round_trip_witness:
  "list_all (storable text_clock)
     [sample_turn ''user'' ''hi'', sample_turn ''bot'' ''a\<newline>  b'', sample_turn ''user'' ''''] \<and>
   spec_round_trip text_clock
     [sample_turn ''user'' ''hi'', sample_turn ''bot'' ''a\<newline>  b'', sample_turn ''user'' '''']"
proof -
  have s: "list_all (storable text_clock)
     [sample_turn ''user'' ''hi'', sample_turn ''bot'' ''a\<newline>  b'', sample_turn ''user'' '''']"
    by code_simp
  from history_round_trip [OF s] s show ?thesis
    by (simp add: spec_round_trip_def)
qed

theorem history_strip_counterexample:
  "\<not> spec_round_trip text_clock [sample_turn ''user'' '' hi'']"
  by code_simp

end
